theory Spec2Isabelle
  imports Main "HOL-Library.Multiset"
begin

section \<open>Data model (types.ts)\<close>

text \<open>
  \<^verbatim>\<open>Color = 'white' | 'black'\<close> and
  \<^verbatim>\<open>PieceType = 'k' | 'q' | 'r' | 'b' | 'n' | 'p'\<close> are closed sets of
  string tags; they become datatypes. A \<^verbatim>\<open>Piece\<close> is a record. The optional
  field \<^verbatim>\<open>hasMoved\<close> is only ever read as \<^verbatim>\<open>!p.hasMoved\<close>, where a missing
  field behaves as \<^verbatim>\<open>false\<close>, so it is a plain boolean here.
\<close>

datatype color = White | Black

datatype pieceType = King | Queen | Rook | Bishop | Knight | Pawn

record piece =
  ptype :: pieceType
  color :: color
  hasMoved :: bool

text \<open>
  \<^verbatim>\<open>Position = {r, c}\<close> is the pair \<open>(r, c)\<close> and \<^verbatim>\<open>Move = {from, to}\<close>
  the pair \<open>(from, to)\<close>. Coordinates are JavaScript numbers; the model
  takes them to be integers of any sign and size. \<^verbatim>\<open>Board = (Piece | null)[][]\<close>
  is a list of rows, \<open>None\<close> standing for \<^verbatim>\<open>null\<close>.
\<close>

type_synonym position = "int \<times> int"
type_synonym move = "position \<times> position"
type_synonym board = "piece option list list"

text \<open>
  The only exception the engine can raise is the \<^verbatim>\<open>TypeError\<close> of reading
  or writing an index of \<^verbatim>\<open>undefined\<close>, which is what \<^verbatim>\<open>board[r][c]\<close>
  does when \<^verbatim>\<open>board[r]\<close> does not exist. \<open>Diverges\<close> marks a loop that
  never leaves. \<open>NotAPiece\<close> marks the one thing the model does not
  follow the source into: \<^verbatim>\<open>{ ...null }\<close> is the object \<^verbatim>\<open>{}\<close>, so moving
  from an empty square puts \<^verbatim>\<open>{ hasMoved: true }\<close> on the board, which is no
  \<^verbatim>\<open>Piece\<close>. \<open>NoBaseCase\<close> marks a search started at depth 0, which
  the source continues at depth -1, below its only base case.
\<close>

datatype error = TypeError | Diverges | NotAPiece | NoBaseCase

text \<open>
  \<^verbatim>\<open>board[r][c]\<close>: a missing row raises, a missing column reads
  \<^verbatim>\<open>undefined\<close>, which every test of the engine but one treats as \<^verbatim>\<open>null\<close>.
\<close>

definition cell :: "board \<Rightarrow> int \<Rightarrow> int \<Rightarrow> error + piece option" where
  "cell board r c =
     (if 0 \<le> r \<and> r < int (length board)
      then (let row = board ! nat r
            in if 0 \<le> c \<and> c < int (length row) then Inr (row ! nat c) else Inr None)
      else Inl TypeError)"

text \<open>\<^verbatim>\<open>p && p.color === col && p.type === ty\<close>\<close>

definition isPiece :: "piece option \<Rightarrow> color \<Rightarrow> pieceType \<Rightarrow> bool" where
  "isPiece p col ty = (case p of None \<Rightarrow> False | Some q \<Rightarrow> color q = col \<and> ptype q = ty)"

text \<open>
  A loop of the shape \<^verbatim>\<open>for (x of xs) { if (f(x)) return true; }\<close> followed by
  \<^verbatim>\<open>false\<close>, and a loop that pushes what \<^verbatim>\<open>f(x)\<close> yields onto one list.
  An exception in \<^verbatim>\<open>f(x)\<close> ends either loop.
\<close>

fun anyE :: "('a \<Rightarrow> error + bool) \<Rightarrow> 'a list \<Rightarrow> error + bool" where
  "anyE f [] = Inr False"
| "anyE f (x # xs) =
     (case f x of Inl e \<Rightarrow> Inl e | Inr found \<Rightarrow> if found then Inr True else anyE f xs)"

fun collectE :: "('a \<Rightarrow> error + 'b list) \<Rightarrow> 'a list \<Rightarrow> error + 'b list" where
  "collectE f [] = Inr []"
| "collectE f (x # xs) =
     (case f x of Inl e \<Rightarrow> Inl e
      | Inr ys \<Rightarrow> (case collectE f xs of Inl e \<Rightarrow> Inl e | Inr zs \<Rightarrow> Inr (ys @ zs)))"

section \<open>Path clearance\<close>

text \<open>
  The \<^verbatim>\<open>while (r !== to.r || c !== to.c)\<close> loop of \<^verbatim>\<open>isPathClear\<close>. Taken on
  its own it need not end, so it is a partial function; \<open>None\<close> is "runs
  forever".
\<close>

partial_function (option) isPathClear_loop ::
  "board \<Rightarrow> position \<Rightarrow> int \<Rightarrow> int \<Rightarrow> int \<Rightarrow> int \<Rightarrow> (error + bool) option" where
  "isPathClear_loop board toP dr dc r c =
     (if r \<noteq> fst toP \<or> c \<noteq> snd toP
      then (case cell board r c of
              Inl e \<Rightarrow> Some (Inl e)
            | Inr p \<Rightarrow> (case p of
                         Some q \<Rightarrow> Some (Inr False)
                       | None \<Rightarrow> isPathClear_loop board toP dr dc (r + dr) (c + dc)))
      else Some (Inr True))"

declare isPathClear_loop.simps [code]

definition isPathClear :: "board \<Rightarrow> position \<Rightarrow> position \<Rightarrow> error + bool" where
  "isPathClear board fromP toP =
     (let dr = sgn (fst toP - fst fromP);
          dc = sgn (snd toP - snd fromP)
      in case isPathClear_loop board toP dr dc (fst fromP + dr) (snd fromP + dc) of
           Some res \<Rightarrow> res
         | None \<Rightarrow> Inl Diverges)"

section \<open>Attack detection\<close>

definition pawnAttacks :: "board \<Rightarrow> position \<Rightarrow> color \<Rightarrow> error + bool" where
  "pawnAttacks board pos attackerColor =
     (let pawnRow = fst pos + (if attackerColor = White then 1 else - 1)
      in if pawnRow \<ge> 0 \<and> pawnRow < 8
         then (case (if snd pos - 1 \<ge> 0
                     then (case cell board pawnRow (snd pos - 1) of
                             Inl e \<Rightarrow> Inl e
                           | Inr p \<Rightarrow> Inr (isPiece p attackerColor Pawn))
                     else Inr False) of
                 Inl e \<Rightarrow> Inl e
               | Inr left \<Rightarrow>
                   if left then Inr True
                   else if snd pos + 1 < 8
                        then (case cell board pawnRow (snd pos + 1) of
                                Inl e \<Rightarrow> Inl e
                              | Inr p \<Rightarrow> Inr (isPiece p attackerColor Pawn))
                        else Inr False)
         else Inr False)"

definition knightMoves :: "position \<Rightarrow> position list" where
  "knightMoves pos =
     [(fst pos - 2, snd pos - 1), (fst pos - 2, snd pos + 1),
      (fst pos - 1, snd pos - 2), (fst pos - 1, snd pos + 2),
      (fst pos + 1, snd pos - 2), (fst pos + 1, snd pos + 2),
      (fst pos + 2, snd pos - 1), (fst pos + 2, snd pos + 1)]"

definition knightAttacks :: "board \<Rightarrow> position \<Rightarrow> color \<Rightarrow> error + bool" where
  "knightAttacks board pos attackerColor =
     anyE (\<lambda>m. if fst m \<ge> 0 \<and> fst m < 8 \<and> snd m \<ge> 0 \<and> snd m < 8
                then (case cell board (fst m) (snd m) of
                        Inl e \<Rightarrow> Inl e
                      | Inr p \<Rightarrow> Inr (isPiece p attackerColor Knight))
                else Inr False)
          (knightMoves pos)"

definition kingAttacks :: "board \<Rightarrow> position \<Rightarrow> color \<Rightarrow> error + bool" where
  "kingAttacks board pos attackerColor =
     anyE (\<lambda>r. anyE (\<lambda>c. if r = fst pos \<and> c = snd pos then Inr False
                          else (case cell board r c of
                                  Inl e \<Rightarrow> Inl e
                                | Inr p \<Rightarrow> Inr (isPiece p attackerColor King)))
                     [max 0 (snd pos - 1) .. min 7 (snd pos + 1)])
          [max 0 (fst pos - 1) .. min 7 (fst pos + 1)]"

text \<open>
  The \<^verbatim>\<open>while\<close> loop that walks one ray. Its result is whether the function
  returns \<^verbatim>\<open>true\<close> from inside it; \<^verbatim>\<open>break\<close> and leaving the board both go
  on to the next direction.
\<close>

partial_function (option) slide_loop ::
  "board \<Rightarrow> color \<Rightarrow> int \<Rightarrow> int \<Rightarrow> pieceType list \<Rightarrow> int \<Rightarrow> int \<Rightarrow> (error + bool) option" where
  "slide_loop board attackerColor dr dc types r c =
     (if r \<ge> 0 \<and> r < 8 \<and> c \<ge> 0 \<and> c < 8
      then (case cell board r c of
              Inl e \<Rightarrow> Some (Inl e)
            | Inr p \<Rightarrow> (case p of
                         Some q \<Rightarrow> Some (Inr (color q = attackerColor \<and> ptype q \<in> set types))
                       | None \<Rightarrow> slide_loop board attackerColor dr dc types (r + dr) (c + dc)))
      else Some (Inr False))"

declare slide_loop.simps [code]

definition directions :: "(int \<times> int \<times> pieceType list) list" where
  "directions =
     [(- 1, 0, [Rook, Queen]), (1, 0, [Rook, Queen]),
      (0, - 1, [Rook, Queen]), (0, 1, [Rook, Queen]),
      (- 1, - 1, [Bishop, Queen]), (- 1, 1, [Bishop, Queen]),
      (1, - 1, [Bishop, Queen]), (1, 1, [Bishop, Queen])]"

definition slidingAttacks :: "board \<Rightarrow> position \<Rightarrow> color \<Rightarrow> error + bool" where
  "slidingAttacks board pos attackerColor =
     anyE (\<lambda>(dr, dc, types).
             case slide_loop board attackerColor dr dc types (fst pos + dr) (snd pos + dc) of
               Some res \<Rightarrow> res
             | None \<Rightarrow> Inl Diverges)
          directions"

text \<open>The four numbered parts of \<^verbatim>\<open>isSquareUnderAttack\<close>, in the source's order.\<close>

definition isSquareUnderAttack :: "board \<Rightarrow> position \<Rightarrow> color \<Rightarrow> error + bool" where
  "isSquareUnderAttack board pos attackerColor =
     anyE (\<lambda>part. part board pos attackerColor)
          [pawnAttacks, knightAttacks, kingAttacks, slidingAttacks]"

section \<open>Applying a move\<close>

text \<open>
  \<^verbatim>\<open>newBoard[r][c] = v\<close>. A missing row raises. A column at or beyond the
  row's length makes the array longer, the columns in between being holes
  that read as \<^verbatim>\<open>undefined\<close>. A negative column adds a property to the
  array object that is no element of it: the elements stay as they are,
  and the copy that every \<^verbatim>\<open>applyMove\<close> starts from does not carry the
  property over.
\<close>

definition setCell :: "board \<Rightarrow> int \<Rightarrow> int \<Rightarrow> piece option \<Rightarrow> error + board" where
  "setCell board r c v =
     (if 0 \<le> r \<and> r < int (length board)
      then (let row = board ! nat r
            in Inr (board[nat r :=
                 (if c < 0 then row
                  else if c < int (length row) then row[nat c := v]
                  else row @ replicate (nat c - length row) None @ [v])]))
      else Inl TypeError)"

definition cloneBoard :: "board \<Rightarrow> board" where
  "cloneBoard board = map (\<lambda>row. row) board"

text \<open>The castling branch of \<^verbatim>\<open>applyMove\<close>: the rook is copied, marked and moved.\<close>

definition rookFromCol :: "bool \<Rightarrow> int" where
  "rookFromCol isKingSide = (if isKingSide then 7 else 0)"

definition rookToCol :: "bool \<Rightarrow> int" where
  "rookToCol isKingSide = (if isKingSide then 5 else 3)"

definition castleRook :: "board \<Rightarrow> int \<Rightarrow> bool \<Rightarrow> error + board" where
  "castleRook newBoard row isKingSide =
     (case cell newBoard row (rookFromCol isKingSide) of
        Inl e \<Rightarrow> Inl e
      | Inr r0 \<Rightarrow> (case r0 of
          None \<Rightarrow> Inl NotAPiece
        | Some rk \<Rightarrow>
            (case setCell newBoard row (rookToCol isKingSide) (Some (rk\<lparr>hasMoved := True\<rparr>)) of
               Inl e \<Rightarrow> Inl e
             | Inr nb \<Rightarrow> setCell nb row (rookFromCol isKingSide) None)))"

text \<open>
  The object \<^verbatim>\<open>p\<close> as it is when \<^verbatim>\<open>applyMove\<close> returns: the copy of the
  moving piece, marked as moved, and promoted if it is a pawn on row 0 or 7
  (\<^verbatim>\<open>promoteTo || 'q'\<close>).
\<close>

definition movedPiece :: "piece \<Rightarrow> int \<Rightarrow> pieceType option \<Rightarrow> piece" where
  "movedPiece q tr promoteTo =
     (let p = q\<lparr>hasMoved := True\<rparr>
      in if ptype p = Pawn \<and> (tr = 0 \<or> tr = 7)
         then p\<lparr>ptype := (case promoteTo of None \<Rightarrow> Queen | Some t \<Rightarrow> t)\<rparr>
         else p)"

text \<open>
  \<^verbatim>\<open>applyMove\<close>. The test \<^verbatim>\<open>if (!p) return newBoard\<close> never fires, since
  \<^verbatim>\<open>p\<close> is a fresh object. The promotion assigns to \<^verbatim>\<open>p.type\<close> after
  \<^verbatim>\<open>p\<close> has been stored in the board, and the board holds a reference to
  \<^verbatim>\<open>p\<close>: the square shows the promoted piece. Here the square is
  given \<open>movedPiece\<close> at once, which is the same board.
\<close>

fun applyMove :: "board \<Rightarrow> move \<Rightarrow> pieceType option \<Rightarrow> error + board" where
  "applyMove board ((fr, fc), (tr, tc)) promoteTo =
     (let newBoard = cloneBoard board
      in case cell newBoard fr fc of
           Inl e \<Rightarrow> Inl e
         | Inr p0 \<Rightarrow> (case p0 of
             None \<Rightarrow> Inl NotAPiece
           | Some q \<Rightarrow>
               (case (if ptype q = King \<and> \<bar>tc - fc\<bar> = 2
                      then castleRook newBoard fr (tc > fc)
                      else Inr newBoard) of
                  Inl e \<Rightarrow> Inl e
                | Inr nb1 \<Rightarrow> (case setCell nb1 tr tc (Some (movedPiece q tr promoteTo)) of
                    Inl e \<Rightarrow> Inl e
                  | Inr nb2 \<Rightarrow> setCell nb2 fr fc None))))"

section \<open>Check detection\<close>

definition opponentOf :: "color \<Rightarrow> color" where
  "opponentOf col = (if col = White then Black else White)"

text \<open>
  The search for the king. The \<^verbatim>\<open>break\<close> leaves the inner loop only, so
  each row yields its first king of the colour and a later row overwrites
  \<^verbatim>\<open>kPos\<close>.
\<close>

fun firstKingInRow :: "board \<Rightarrow> color \<Rightarrow> int \<Rightarrow> int list \<Rightarrow> error + position option" where
  "firstKingInRow board col r [] = Inr None"
| "firstKingInRow board col r (c # cs) =
     (case cell board r c of
        Inl e \<Rightarrow> Inl e
      | Inr p \<Rightarrow> if isPiece p col King then Inr (Some (r, c))
                 else firstKingInRow board col r cs)"

fun findKing :: "board \<Rightarrow> color \<Rightarrow> position option \<Rightarrow> int list \<Rightarrow> error + position option" where
  "findKing board col kPos [] = Inr kPos"
| "findKing board col kPos (r # rs) =
     (case firstKingInRow board col r [0..7] of
        Inl e \<Rightarrow> Inl e
      | Inr found \<Rightarrow>
          findKing board col (case found of None \<Rightarrow> kPos | Some k \<Rightarrow> Some k) rs)"

definition isInCheck :: "board \<Rightarrow> color \<Rightarrow> error + bool" where
  "isInCheck board col =
     (case findKing board col None [0..7] of
        Inl e \<Rightarrow> Inl e
      | Inr kPos \<Rightarrow> (case kPos of
                      None \<Rightarrow> Inr True
                    | Some k \<Rightarrow> isSquareUnderAttack board k (opponentOf col)))"

section \<open>Move validation\<close>

text \<open>
  The \<^verbatim>\<open>switch (p.type)\<close> of \<^verbatim>\<open>isValidMove\<close>: the value of \<^verbatim>\<open>valid\<close> after
  it. The two \<^verbatim>\<open>return false\<close> inside the castling branch are the value
  \<open>False\<close> here, which the rest of \<^verbatim>\<open>isValidMove\<close> returns unchanged.
\<close>

definition pawnGeometry ::
  "board \<Rightarrow> piece \<Rightarrow> position \<Rightarrow> position \<Rightarrow> piece option \<Rightarrow> error + bool" where
  "pawnGeometry board p fromP toP target =
     (let dx = \<bar>snd toP - snd fromP\<bar>;
          dir = (if color p = White then - 1 else 1);
          startRow = (if color p = White then 6 else 1);
          one = (snd fromP = snd toP \<and> fst toP = fst fromP + dir \<and> target = None);
          capture = (dx = 1 \<and> fst toP = fst fromP + dir \<and> target \<noteq> None)
      in if snd fromP = snd toP \<and> fst toP = fst fromP + 2 * dir \<and> fst fromP = startRow
            \<and> target = None
         then (case cell board (fst fromP + dir) (snd fromP) of
                 Inl e \<Rightarrow> Inl e
               | Inr mid \<Rightarrow> Inr (one \<or> mid = None \<or> capture))
         else Inr (one \<or> capture))"

definition castlingGeometry ::
  "board \<Rightarrow> position \<Rightarrow> position \<Rightarrow> color \<Rightarrow> bool \<Rightarrow> error + bool" where
  "castlingGeometry board fromP toP turn checkSafety =
     (case (if checkSafety then isInCheck board turn else Inr False) of
        Inl e \<Rightarrow> Inl e
      | Inr inCheck \<Rightarrow>
          if inCheck then Inr False
          else (let row = fst fromP;
                    isKingSide = (snd toP > snd fromP);
                    rookCol = (if isKingSide then 7 else 0)
                in case cell board row rookCol of
                     Inl e \<Rightarrow> Inl e
                   | Inr rook \<Rightarrow>
                       if (case rook of
                             None \<Rightarrow> False
                           | Some rk \<Rightarrow> ptype rk = Rook \<and> color rk = turn \<and> \<not> hasMoved rk)
                       then (case isPathClear board fromP (row, rookCol) of
                               Inl e \<Rightarrow> Inl e
                             | Inr clear \<Rightarrow>
                                 if clear
                                 then (let midCol = snd fromP + (if isKingSide then 1 else - 1);
                                           opponent = opponentOf turn
                                       in case (if checkSafety
                                                then isSquareUnderAttack board (row, midCol) opponent
                                                else Inr False) of
                                            Inl e \<Rightarrow> Inl e
                                          | Inr attacked \<Rightarrow> Inr (\<not> attacked))
                                 else Inr False)
                       else Inr False))"

definition pieceGeometry ::
  "board \<Rightarrow> piece \<Rightarrow> position \<Rightarrow> position \<Rightarrow> piece option \<Rightarrow> color \<Rightarrow> bool \<Rightarrow> error + bool" where
  "pieceGeometry board p fromP toP target turn checkSafety =
     (let dx = \<bar>snd toP - snd fromP\<bar>;
          dy = \<bar>fst toP - fst fromP\<bar>
      in case ptype p of
           Pawn \<Rightarrow> pawnGeometry board p fromP toP target
         | Rook \<Rightarrow> if dx = 0 \<or> dy = 0 then isPathClear board fromP toP else Inr False
         | Knight \<Rightarrow> Inr ((dx = 2 \<and> dy = 1) \<or> (dx = 1 \<and> dy = 2))
         | Bishop \<Rightarrow> if dx = dy then isPathClear board fromP toP else Inr False
         | Queen \<Rightarrow> if dx = 0 \<or> dy = 0 \<or> dx = dy then isPathClear board fromP toP
                    else Inr False
         | King \<Rightarrow> if dx \<le> 1 \<and> dy \<le> 1 then Inr True
                   else if dy = 0 \<and> dx = 2 \<and> \<not> hasMoved p
                        then castlingGeometry board fromP toP turn checkSafety
                        else Inr False)"

definition isValidMove ::
  "board \<Rightarrow> position \<Rightarrow> position \<Rightarrow> color \<Rightarrow> bool \<Rightarrow> error + bool" where
  "isValidMove board fromP toP turn checkSafety =
     (case cell board (fst fromP) (snd fromP) of
        Inl e \<Rightarrow> Inl e
      | Inr p0 \<Rightarrow> (case cell board (fst toP) (snd toP) of
          Inl e \<Rightarrow> Inl e
        | Inr target \<Rightarrow> (case p0 of
            None \<Rightarrow> Inr False
          | Some p \<Rightarrow>
              if color p \<noteq> turn then Inr False
              else if (case target of None \<Rightarrow> False | Some t \<Rightarrow> color t = color p)
                   then Inr False
                   else (case pieceGeometry board p fromP toP target turn checkSafety of
                           Inl e \<Rightarrow> Inl e
                         | Inr valid \<Rightarrow>
                             if valid \<and> checkSafety
                             then (case applyMove board (fromP, toP) None of
                                     Inl e \<Rightarrow> Inl e
                                   | Inr newBoard \<Rightarrow>
                                       (case isInCheck newBoard turn of
                                          Inl e \<Rightarrow> Inl e
                                        | Inr inCheck \<Rightarrow> Inr (\<not> inCheck)))
                             else Inr valid))))"

section \<open>Move generation\<close>

definition getValidMoves :: "board \<Rightarrow> position \<Rightarrow> error + position list" where
  "getValidMoves board fromP =
     (case cell board (fst fromP) (snd fromP) of
        Inl e \<Rightarrow> Inl e
      | Inr p0 \<Rightarrow> (case p0 of
          None \<Rightarrow> Inr []
        | Some p \<Rightarrow>
            collectE (\<lambda>r. collectE (\<lambda>c.
                case isValidMove board fromP (r, c) (color p) True of
                  Inl e \<Rightarrow> Inl e
                | Inr ok \<Rightarrow> Inr (if ok then [(r, c)] else [])) [0..7]) [0..7]))"

definition getAllMoves :: "board \<Rightarrow> color \<Rightarrow> error + move list" where
  "getAllMoves board col =
     collectE (\<lambda>r. collectE (\<lambda>c.
         case cell board r c of
           Inl e \<Rightarrow> Inl e
         | Inr p \<Rightarrow>
             if (case p of None \<Rightarrow> False | Some q \<Rightarrow> color q = col)
             then collectE (\<lambda>tr. collectE (\<lambda>tc.
                      case isValidMove board (r, c) (tr, tc) col True of
                        Inl e \<Rightarrow> Inl e
                      | Inr ok \<Rightarrow> Inr (if ok then [((r, c), (tr, tc))] else [])) [0..7]) [0..7]
             else Inr []) [0..7]) [0..7]"

section \<open>Evaluation and search\<close>

text \<open>
  The numbers of the search are integers and the two infinities that the
  bounds start from.
\<close>

datatype jsnum = NegInf | Fin int | PosInf

fun jle :: "jsnum \<Rightarrow> jsnum \<Rightarrow> bool" where
  "jle NegInf y = True"
| "jle (Fin a) NegInf = False"
| "jle (Fin a) (Fin b) = (a \<le> b)"
| "jle (Fin a) PosInf = True"
| "jle PosInf y = (y = PosInf)"

definition jless :: "jsnum \<Rightarrow> jsnum \<Rightarrow> bool" where
  "jless x y = (jle x y \<and> x \<noteq> y)"

definition jmax :: "jsnum \<Rightarrow> jsnum \<Rightarrow> jsnum" where
  "jmax x y = (if jle x y then y else x)"

definition jmin :: "jsnum \<Rightarrow> jsnum \<Rightarrow> jsnum" where
  "jmin x y = (if jle x y then x else y)"

fun VALS :: "pieceType \<Rightarrow> int" where
  "VALS Pawn = 10"
| "VALS Knight = 30"
| "VALS Bishop = 30"
| "VALS Rook = 50"
| "VALS Queen = 90"
| "VALS King = 900"

text \<open>A loop that updates one variable, \<^verbatim>\<open>for (x of xs) { s = f(x, s); }\<close>.\<close>

fun foldE :: "('a \<Rightarrow> 's \<Rightarrow> error + 's) \<Rightarrow> 'a list \<Rightarrow> 's \<Rightarrow> error + 's" where
  "foldE f [] s = Inr s"
| "foldE f (x # xs) s = (case f x s of Inl e \<Rightarrow> Inl e | Inr s' \<Rightarrow> foldE f xs s')"

definition evaluateBoard :: "board \<Rightarrow> error + int" where
  "evaluateBoard board =
     foldE (\<lambda>r. foldE (\<lambda>c score.
              case cell board r c of
                Inl e \<Rightarrow> Inl e
              | Inr p0 \<Rightarrow> (case p0 of
                  None \<Rightarrow> Inr score
                | Some p \<Rightarrow> Inr (score + (if color p = Black then 1 else - 1) * VALS (ptype p))))
            [0..7])
       [0..7] 0"

text \<open>
  \<^verbatim>\<open>minimax\<close> with its two loops. The depth is a natural number: the
  source counts it down by one to the test \<^verbatim>\<open>depth === 0\<close>. \<open>maxLoop\<close> and
  \<open>minLoop\<close> carry \<^verbatim>\<open>maxEval\<close>/\<^verbatim>\<open>minEval\<close>, \<^verbatim>\<open>alpha\<close> and \<^verbatim>\<open>beta\<close>; their
  depth argument is the depth of the calls they make.
\<close>

function (sequential) minimax :: "board \<Rightarrow> nat \<Rightarrow> jsnum \<Rightarrow> jsnum \<Rightarrow> bool \<Rightarrow> error + jsnum"
  and maxLoop :: "board \<Rightarrow> nat \<Rightarrow> move list \<Rightarrow> jsnum \<Rightarrow> jsnum \<Rightarrow> jsnum \<Rightarrow> error + jsnum"
  and minLoop :: "board \<Rightarrow> nat \<Rightarrow> move list \<Rightarrow> jsnum \<Rightarrow> jsnum \<Rightarrow> jsnum \<Rightarrow> error + jsnum"
where
  "minimax board 0 alpha beta isMaximizing =
     (case evaluateBoard board of Inl e \<Rightarrow> Inl e | Inr score \<Rightarrow> Inr (Fin score))"
| "minimax board (Suc d) alpha beta isMaximizing =
     (let col = (if isMaximizing then Black else White)
      in case getAllMoves board col of
           Inl e \<Rightarrow> Inl e
         | Inr moves \<Rightarrow>
             if length moves = 0
             then (case isInCheck board col of
                     Inl e \<Rightarrow> Inl e
                   | Inr inCheck \<Rightarrow>
                       if inCheck then Inr (Fin (if isMaximizing then - 9999 else 9999))
                       else Inr (Fin 0))
             else if isMaximizing then maxLoop board d moves NegInf alpha beta
                  else minLoop board d moves PosInf alpha beta)"
| "maxLoop board d [] maxEval alpha beta = Inr maxEval"
| "maxLoop board d (move # rest) maxEval alpha beta =
     (case applyMove board move None of
        Inl e \<Rightarrow> Inl e
      | Inr nextBoard \<Rightarrow>
          (case minimax nextBoard d alpha beta False of
             Inl e \<Rightarrow> Inl e
           | Inr evalVal \<Rightarrow>
               if jle beta (jmax alpha evalVal) then Inr (jmax maxEval evalVal)
               else maxLoop board d rest (jmax maxEval evalVal) (jmax alpha evalVal) beta))"
| "minLoop board d [] minEval alpha beta = Inr minEval"
| "minLoop board d (move # rest) minEval alpha beta =
     (case applyMove board move None of
        Inl e \<Rightarrow> Inl e
      | Inr nextBoard \<Rightarrow>
          (case minimax nextBoard d alpha beta True of
             Inl e \<Rightarrow> Inl e
           | Inr evalVal \<Rightarrow>
               if jle (jmin beta evalVal) alpha then Inr (jmin minEval evalVal)
               else minLoop board d rest (jmin minEval evalVal) alpha (jmin beta evalVal)))"
  by pat_completeness auto
termination
  by (relation "inv_image (less_than <*lex*> less_than)
        (\<lambda>x. case x of
           Inl (board, d, alpha, beta, isMaximizing) \<Rightarrow> (d, 0)
         | Inr (Inl (board, d, moves, maxEval, alpha, beta)) \<Rightarrow> (d, Suc (length moves))
         | Inr (Inr (board, d, moves, minEval, alpha, beta)) \<Rightarrow> (d, Suc (length moves)))")
     auto

text \<open>
  The loop of \<^verbatim>\<open>getBestMove\<close>, carrying \<^verbatim>\<open>bestMove\<close>, \<^verbatim>\<open>maxVal\<close> and
  \<^verbatim>\<open>alpha\<close>; \<^verbatim>\<open>beta\<close> is the constant \<^verbatim>\<open>Infinity\<close>.
\<close>

fun bestLoop ::
  "board \<Rightarrow> nat \<Rightarrow> move list \<Rightarrow> move option \<Rightarrow> jsnum \<Rightarrow> jsnum \<Rightarrow> error + move option" where
  "bestLoop board d [] bestMove maxVal alpha = Inr bestMove"
| "bestLoop board d (move # rest) bestMove maxVal alpha =
     (case applyMove board move None of
        Inl e \<Rightarrow> Inl e
      | Inr nextBoard \<Rightarrow>
          (case minimax nextBoard d alpha PosInf False of
             Inl e \<Rightarrow> Inl e
           | Inr val \<Rightarrow>
               (let better = jless maxVal val;
                    maxVal' = (if better then val else maxVal);
                    bestMove' = (if better then Some move else bestMove)
                in if jle PosInf (jmax alpha val) then Inr bestMove'
                   else bestLoop board d rest bestMove' maxVal' (jmax alpha val))))"

text \<open>
  \<^verbatim>\<open>getBestMove\<close>. The call \<^verbatim>\<open>moves.sort(() => Math.random() - 0.5)\<close>
  reorders the list by chance; the reordering is the parameter \<open>shuffle\<close>.
\<close>

definition getBestMove ::
  "(move list \<Rightarrow> move list) \<Rightarrow> board \<Rightarrow> nat \<Rightarrow> error + move option" where
  "getBestMove shuffle board depth =
     (case getAllMoves board Black of
        Inl e \<Rightarrow> Inl e
      | Inr moves \<Rightarrow>
          if length moves = 0 then Inr None
          else (case depth of
                  0 \<Rightarrow> Inl NoBaseCase
                | Suc d \<Rightarrow> bestLoop board d (shuffle moves) None NegInf NegInf))"

section \<open>Notation\<close>

text \<open>
  \<^verbatim>\<open>['a', ..., 'h'][c]\<close> inside a template string: a column off the list
  prints as \<^verbatim>\<open>undefined\<close>.
\<close>

definition fileName :: "int \<Rightarrow> string" where
  "fileName c = (if 0 \<le> c \<and> c < 8 then [''abcdefgh'' ! nat c] else ''undefined'')"

text \<open>The decimal text of an integer, as \<^verbatim>\<open>toString\<close> and template strings print it.\<close>

fun digitsOf :: "nat \<Rightarrow> string" where
  "digitsOf n = (if n < 10 then [''0123456789'' ! n]
                 else digitsOf (n div 10) @ [''0123456789'' ! (n mod 10)])"

definition showInt :: "int \<Rightarrow> string" where
  "showInt i = (if i < 0 then CHR ''-'' # digitsOf (nat (- i)) else digitsOf (nat i))"

text \<open>\<^verbatim>\<open>type.toUpperCase()\<close>\<close>

fun upperLetter :: "pieceType \<Rightarrow> string" where
  "upperLetter King = ''K''"
| "upperLetter Queen = ''Q''"
| "upperLetter Rook = ''R''"
| "upperLetter Bishop = ''B''"
| "upperLetter Knight = ''N''"
| "upperLetter Pawn = ''P''"

text \<open>
  \<^verbatim>\<open>prevBoard[r][c] !== null\<close>, the one test that tells \<^verbatim>\<open>undefined\<close> from
  \<^verbatim>\<open>null\<close>: a column the row does not have counts as a capture.
\<close>

definition notNull :: "board \<Rightarrow> int \<Rightarrow> int \<Rightarrow> error + bool" where
  "notNull board r c =
     (if 0 \<le> r \<and> r < int (length board)
      then (let row = board ! nat r
            in if 0 \<le> c \<and> c < int (length row) then Inr (row ! nat c \<noteq> None) else Inr True)
      else Inl TypeError)"

text \<open>The suffix for check and mate, which \<^verbatim>\<open>getSan\<close> computes in two places.\<close>

definition checkSuffix :: "board \<Rightarrow> color \<Rightarrow> error + string" where
  "checkSuffix nextBoard opponent =
     (case isInCheck nextBoard opponent of
        Inl e \<Rightarrow> Inl e
      | Inr inCheck \<Rightarrow>
          if inCheck
          then (case getAllMoves nextBoard opponent of
                  Inl e \<Rightarrow> Inl e
                | Inr moves \<Rightarrow> Inr (if length moves = 0 then ''#'' else ''+''))
          else Inr [])"

text \<open>The squares collected in \<^verbatim>\<open>others\<close> for the disambiguation.\<close>

definition sanOthers :: "board \<Rightarrow> piece \<Rightarrow> move \<Rightarrow> error + position list" where
  "sanOthers prevBoard piece mv =
     collectE (\<lambda>r. collectE (\<lambda>c.
         if r = fst (fst mv) \<and> c = snd (fst mv) then Inr []
         else (case cell prevBoard r c of
                 Inl e \<Rightarrow> Inl e
               | Inr p \<Rightarrow>
                   if isPiece p (color piece) (ptype piece)
                   then (case isValidMove prevBoard (r, c) (snd mv) (color piece) True of
                           Inl e \<Rightarrow> Inl e
                         | Inr ok \<Rightarrow> Inr (if ok then [(r, c)] else []))
                   else Inr [])) [0..7]) [0..7]"

definition disambiguation :: "position list \<Rightarrow> position \<Rightarrow> string" where
  "disambiguation others fromP =
     (if length others > 0
      then (let fileMatch = (\<exists>other \<in> set others. snd other = snd fromP);
                rankMatch = (\<exists>other \<in> set others. fst other = fst fromP)
            in if \<not> fileMatch then fileName (snd fromP)
               else if \<not> rankMatch then showInt (8 - fst fromP)
               else fileName (snd fromP) @ showInt (8 - fst fromP))
      else [])"

definition getSan ::
  "board \<Rightarrow> board \<Rightarrow> move \<Rightarrow> pieceType option \<Rightarrow> error + string" where
  "getSan prevBoard nextBoard mv promoteTo =
     (case cell prevBoard (fst (fst mv)) (snd (fst mv)) of
        Inl e \<Rightarrow> Inl e
      | Inr p0 \<Rightarrow> (case p0 of
          None \<Rightarrow> Inr []
        | Some piece \<Rightarrow>
            (let fromFile = fileName (snd (fst mv));
                 toFile = fileName (snd (snd mv));
                 toRank = 8 - fst (snd mv);
                 dest = toFile @ showInt toRank;
                 opponent = opponentOf (color piece)
             in if ptype piece = King \<and> \<bar>snd (snd mv) - snd (fst mv)\<bar> = 2
                then (case checkSuffix nextBoard opponent of
                        Inl e \<Rightarrow> Inl e
                      | Inr suffix \<Rightarrow>
                          Inr ((if snd (snd mv) > snd (fst mv) then ''O-O'' else ''O-O-O'')
                               @ suffix))
                else (case notNull prevBoard (fst (snd mv)) (snd (snd mv)) of
                        Inl e \<Rightarrow> Inl e
                      | Inr isCapture \<Rightarrow>
                          (case (if ptype piece = Pawn
                                 then Inr ((if isCapture then fromFile @ ''x'' @ dest else dest)
                                           @ (case promoteTo of
                                                None \<Rightarrow> []
                                              | Some t \<Rightarrow> ''='' @ upperLetter t))
                                 else (case sanOthers prevBoard piece mv of
                                         Inl e \<Rightarrow> Inl e
                                       | Inr others \<Rightarrow>
                                           Inr (upperLetter (ptype piece)
                                                @ disambiguation others (fst mv)
                                                @ (if isCapture then ''x'' else [])
                                                @ dest))) of
                             Inl e \<Rightarrow> Inl e
                           | Inr san \<Rightarrow>
                               (case checkSuffix nextBoard opponent of
                                  Inl e \<Rightarrow> Inl e
                                | Inr suffix \<Rightarrow> Inr (san @ suffix)))))))"

section \<open>The starting position\<close>

definition mk :: "pieceType \<Rightarrow> color \<Rightarrow> piece option" where
  "mk ty col = Some \<lparr>ptype = ty, color = col, hasMoved = False\<rparr>"

definition backRow :: "color \<Rightarrow> piece option list" where
  "backRow col =
     [mk Rook col, mk Knight col, mk Bishop col, mk Queen col,
      mk King col, mk Bishop col, mk Knight col, mk Rook col]"

definition getInitialBoard :: board where
  "getInitialBoard =
     [backRow Black,
      replicate 8 (mk Pawn Black),
      replicate 8 None,
      replicate 8 None,
      replicate 8 None,
      replicate 8 None,
      replicate 8 (mk Pawn White),
      backRow White]"

text \<open>The piece on a square of a board that has the row, for stating properties.\<close>

definition sq :: "board \<Rightarrow> int \<Rightarrow> int \<Rightarrow> piece option" where
  "sq board r c = (case cell board r c of Inl e \<Rightarrow> None | Inr p \<Rightarrow> p)"


section \<open>Applying a move, with the objects in a store\<close>

text \<open>
  Boards, rows and pieces are JavaScript objects, and a variable holds a
  reference to one. Whether \<^verbatim>\<open>applyMove\<close> changes the board it is given
  depends on which writes go to objects it has created and which to objects
  that it shares with its argument, so here the objects live in a store and
  \<^verbatim>\<open>applyMove\<close> is followed statement by statement.

  A square holds \<^verbatim>\<open>null\<close>, \<^verbatim>\<open>undefined\<close> (a hole, or a column the row does not
  have) or a reference to a piece object.
\<close>

datatype val = Null | Undefined | Ref nat

text \<open>
  A piece object. \<^verbatim>\<open>{ ...null }\<close> is the object with no field at all, so each
  field may be missing.
\<close>

record obj =
  otype :: "pieceType option"
  ocolor :: "color option"
  ohasMoved :: "bool option"

text \<open>
  An array: its elements, and the properties that a write at a negative
  index adds to the array object, in the order of their creation.
\<close>

type_synonym 'v arr = "'v list \<times> (int \<times> 'v) list"

text \<open>
  The store: the board arrays (each a list of references to rows), the row
  arrays, and the piece objects. A reference is an index into its list, and
  a new object is added at the end.
\<close>

record heap =
  boards :: "nat list list"
  rowArrs :: "val arr list"
  objects :: "obj list"

text \<open>\<^verbatim>\<open>row[c]\<close> and \<^verbatim>\<open>row[c] = v\<close>, for any kind of element.\<close>

definition getElem :: "'v \<Rightarrow> 'v arr \<Rightarrow> int \<Rightarrow> 'v" where
  "getElem undef row c =
     (if 0 \<le> c \<and> c < int (length (fst row)) then fst row ! nat c
      else if c < 0 then (case map_of (snd row) c of Some v \<Rightarrow> v | None \<Rightarrow> undef)
      else undef)"

primrec putProp :: "int \<Rightarrow> 'v \<Rightarrow> (int \<times> 'v) list \<Rightarrow> (int \<times> 'v) list" where
  "putProp k v [] = [(k, v)]"
| "putProp k v (p # ps) = (if fst p = k then (k, v) # ps else p # putProp k v ps)"

definition putElem :: "'v \<Rightarrow> 'v arr \<Rightarrow> int \<Rightarrow> 'v \<Rightarrow> 'v arr" where
  "putElem undef row c v =
     (if c < 0 then (fst row, putProp c v (snd row))
      else if c < int (length (fst row)) then ((fst row)[nat c := v], snd row)
      else (fst row @ replicate (nat c - length (fst row)) undef @ [v], snd row))"

text \<open>
  \<^verbatim>\<open>board[r][c]\<close> and \<^verbatim>\<open>board[r][c] = v\<close> on the rows of a board: a missing
  row raises.
\<close>

definition readB :: "'v \<Rightarrow> 'v arr list \<Rightarrow> int \<Rightarrow> int \<Rightarrow> error + 'v" where
  "readB undef rows r c =
     (if 0 \<le> r \<and> r < int (length rows) then Inr (getElem undef (rows ! nat r) c)
      else Inl TypeError)"

definition writeB :: "'v \<Rightarrow> 'v arr list \<Rightarrow> int \<Rightarrow> int \<Rightarrow> 'v \<Rightarrow> error + 'v arr list" where
  "writeB undef rows r c v =
     (if 0 \<le> r \<and> r < int (length rows)
      then Inr (rows[nat r := putElem undef (rows ! nat r) c v])
      else Inl TypeError)"

text \<open>The rows that a board array refers to.\<close>

definition rowsOf :: "heap \<Rightarrow> nat \<Rightarrow> val arr list" where
  "rowsOf h b = map (\<lambda>ra. rowArrs h ! ra) (boards h ! b)"

definition readCell :: "heap \<Rightarrow> nat \<Rightarrow> int \<Rightarrow> int \<Rightarrow> error + val" where
  "readCell h b r c = readB Undefined (rowsOf h b) r c"

text \<open>The write changes the row object that \<^verbatim>\<open>board[r]\<close> refers to.\<close>

definition writeCell :: "heap \<Rightarrow> nat \<Rightarrow> int \<Rightarrow> int \<Rightarrow> val \<Rightarrow> error + heap" where
  "writeCell h b r c v =
     (if 0 \<le> r \<and> r < int (length (boards h ! b))
      then (let ra = boards h ! b ! nat r
            in Inr (h\<lparr>rowArrs := (rowArrs h)[ra := putElem Undefined (rowArrs h ! ra) c v]\<rparr>))
      else Inl TypeError)"

text \<open>
  \<^verbatim>\<open>board.map(row => [...row])\<close>: a new row array for each row, holding the
  same elements (the same references), and a new board array of the new
  rows. The spread copies elements only.
\<close>

definition cloneBoardH :: "heap \<Rightarrow> nat \<Rightarrow> heap \<times> nat" where
  "cloneBoardH h b =
     (let n = length (rowArrs h);
          copies = map (\<lambda>ra. (fst (rowArrs h ! ra), [])) (boards h ! b)
      in (h\<lparr>boards := boards h @ [[n ..< n + length copies]],
            rowArrs := rowArrs h @ copies\<rparr>,
          length (boards h)))"

text \<open>\<^verbatim>\<open>{ ...v }\<close>: a new object with the fields of the object \<^verbatim>\<open>v\<close> refers to.\<close>

definition emptyObj :: obj where
  "emptyObj = \<lparr>otype = None, ocolor = None, ohasMoved = None\<rparr>"

definition spreadObj :: "heap \<Rightarrow> val \<Rightarrow> heap \<times> nat" where
  "spreadObj h v =
     (h\<lparr>objects := objects h @ [case v of Ref a \<Rightarrow> objects h ! a | _ \<Rightarrow> emptyObj]\<rparr>,
      length (objects h))"

text \<open>\<^verbatim>\<open>p.hasMoved = true\<close> and \<^verbatim>\<open>p.type = t\<close>\<close>

definition setHasMoved :: "heap \<Rightarrow> nat \<Rightarrow> heap" where
  "setHasMoved h a = h\<lparr>objects := (objects h)[a := (objects h ! a)\<lparr>ohasMoved := Some True\<rparr>]\<rparr>"

definition setType :: "heap \<Rightarrow> nat \<Rightarrow> pieceType \<Rightarrow> heap" where
  "setType h a t = h\<lparr>objects := (objects h)[a := (objects h ! a)\<lparr>otype := Some t\<rparr>]\<rparr>"

text \<open>
  The castling branch. A call returns the store as it is when the call ends,
  also when it ends by raising.
\<close>

definition castleRookH :: "heap \<Rightarrow> nat \<Rightarrow> int \<Rightarrow> bool \<Rightarrow> heap \<times> (error + unit)" where
  "castleRookH h newBoard row isKingSide =
     (case readCell h newBoard row (rookFromCol isKingSide) of
        Inl e \<Rightarrow> (h, Inl e)
      | Inr v \<Rightarrow>
          (let (h1, rook) = spreadObj h v;
               h2 = setHasMoved h1 rook
           in case writeCell h2 newBoard row (rookToCol isKingSide) (Ref rook) of
                Inl e \<Rightarrow> (h2, Inl e)
              | Inr h3 \<Rightarrow>
                  (case writeCell h3 newBoard row (rookFromCol isKingSide) Null of
                     Inl e \<Rightarrow> (h3, Inl e)
                   | Inr h4 \<Rightarrow> (h4, Inr ()))))"

text \<open>
  \<^verbatim>\<open>applyMove\<close>, in the order of the source. \<^verbatim>\<open>if (!p) return newBoard\<close> is
  left out: \<^verbatim>\<open>p\<close> is an object, and no object is falsy.
\<close>

fun applyMoveH :: "heap \<Rightarrow> nat \<Rightarrow> move \<Rightarrow> pieceType option \<Rightarrow> heap \<times> (error + nat)" where
  "applyMoveH h board ((fr, fc), (tr, tc)) promoteTo =
     (let (h1, newBoard) = cloneBoardH h board
      in case readCell h1 newBoard fr fc of
           Inl e \<Rightarrow> (h1, Inl e)
         | Inr v \<Rightarrow>
             (let (h2, p) = spreadObj h1 v;
                  h3 = setHasMoved h2 p
              in case (if otype (objects h3 ! p) = Some King \<and> \<bar>tc - fc\<bar> = 2
                       then castleRookH h3 newBoard fr (tc > fc)
                       else (h3, Inr ())) of
                   (h4, Inl e) \<Rightarrow> (h4, Inl e)
                 | (h4, Inr u) \<Rightarrow>
                     (case writeCell h4 newBoard tr tc (Ref p) of
                        Inl e \<Rightarrow> (h4, Inl e)
                      | Inr h5 \<Rightarrow>
                          (case writeCell h5 newBoard fr fc Null of
                             Inl e \<Rightarrow> (h5, Inl e)
                           | Inr h6 \<Rightarrow>
                               (if otype (objects h6 ! p) = Some Pawn \<and> (tr = 0 \<or> tr = 7)
                                then setType h6 p (case promoteTo of None \<Rightarrow> Queen | Some t \<Rightarrow> t)
                                else h6,
                                Inr newBoard)))))"

text \<open>
  What a board is, apart from where its objects are: each square with the
  fields of the piece it refers to. Two boards are structurally equal when
  this is the same for both.
\<close>

datatype cval = CNull | CUndefined | CObj obj

definition cvalOf :: "obj list \<Rightarrow> val \<Rightarrow> cval" where
  "cvalOf os v = (case v of Null \<Rightarrow> CNull | Undefined \<Rightarrow> CUndefined | Ref a \<Rightarrow> CObj (os ! a))"

definition mapArr :: "('v \<Rightarrow> 'w) \<Rightarrow> 'v arr \<Rightarrow> 'w arr" where
  "mapArr f row = (map f (fst row), map (\<lambda>kv. (fst kv, f (snd kv))) (snd row))"

definition content :: "heap \<Rightarrow> nat \<Rightarrow> cval arr list" where
  "content h b = map (mapArr (cvalOf (objects h))) (rowsOf h b)"

text \<open>
  A board of the store with nothing dangling: the board array exists, its
  rows exist, and what the rows hold (elements and properties) refers to
  objects that exist.
\<close>

definition okv :: "obj list \<Rightarrow> val \<Rightarrow> bool" where
  "okv os v = (case v of Ref a \<Rightarrow> a < length os | _ \<Rightarrow> True)"

definition allv :: "('v \<Rightarrow> bool) \<Rightarrow> 'v arr list \<Rightarrow> bool" where
  "allv P rows \<longleftrightarrow>
     (\<forall>row \<in> set rows. (\<forall>x \<in> set (fst row). P x) \<and> (\<forall>kv \<in> set (snd row). P (snd kv)))"

definition wfBoard :: "heap \<Rightarrow> nat \<Rightarrow> bool" where
  "wfBoard h b \<longleftrightarrow>
     b < length (boards h)
     \<and> (\<forall>ra \<in> set (boards h ! b). ra < length (rowArrs h))
     \<and> allv (okv (objects h)) (rowsOf h b)"

text \<open>
  Every object of the store \<open>h\<close> is in \<open>h'\<close> what it is in \<open>h\<close>: the objects
  of \<open>h'\<close> are those of \<open>h\<close>, as they are, and then new ones.
\<close>

definition unchanged :: "heap \<Rightarrow> heap \<Rightarrow> bool" where
  "unchanged h h' \<longleftrightarrow>
     take (length (boards h)) (boards h') = boards h
     \<and> take (length (rowArrs h)) (rowArrs h') = rowArrs h
     \<and> take (length (objects h)) (objects h') = objects h"

text \<open>
  The same call seen on values, with no store: the board that results, as
  a function of the board given. The moving piece is put on its square as it
  is when the call returns.
\<close>

definition spreadC :: "cval \<Rightarrow> obj" where
  "spreadC v = (case v of CObj x \<Rightarrow> x | _ \<Rightarrow> emptyObj)"

definition castleRookC :: "cval arr list \<Rightarrow> int \<Rightarrow> bool \<Rightarrow> error + cval arr list" where
  "castleRookC newBoard row isKingSide =
     (case readB CUndefined newBoard row (rookFromCol isKingSide) of
        Inl e \<Rightarrow> Inl e
      | Inr v \<Rightarrow>
          (case writeB CUndefined newBoard row (rookToCol isKingSide)
                  (CObj ((spreadC v)\<lparr>ohasMoved := Some True\<rparr>)) of
             Inl e \<Rightarrow> Inl e
           | Inr nb \<Rightarrow> writeB CUndefined nb row (rookFromCol isKingSide) CNull))"

definition movedObj :: "obj \<Rightarrow> int \<Rightarrow> pieceType option \<Rightarrow> obj" where
  "movedObj q tr promoteTo =
     (let p = q\<lparr>ohasMoved := Some True\<rparr>
      in if otype p = Some Pawn \<and> (tr = 0 \<or> tr = 7)
         then p\<lparr>otype := Some (case promoteTo of None \<Rightarrow> Queen | Some t \<Rightarrow> t)\<rparr>
         else p)"

fun applyMoveC :: "cval arr list \<Rightarrow> move \<Rightarrow> pieceType option \<Rightarrow> error + cval arr list" where
  "applyMoveC board ((fr, fc), (tr, tc)) promoteTo =
     (let newBoard = map (\<lambda>row. (fst row, [])) board
      in case readB CUndefined newBoard fr fc of
           Inl e \<Rightarrow> Inl e
         | Inr v \<Rightarrow>
             (case (if otype (spreadC v) = Some King \<and> \<bar>tc - fc\<bar> = 2
                    then castleRookC newBoard fr (tc > fc)
                    else Inr newBoard) of
                Inl e \<Rightarrow> Inl e
              | Inr nb1 \<Rightarrow>
                  (case writeB CUndefined nb1 tr tc (CObj (movedObj (spreadC v) tr promoteTo)) of
                     Inl e \<Rightarrow> Inl e
                   | Inr nb2 \<Rightarrow> writeB CUndefined nb2 fr fc CNull)))"

subsection \<open>The call in parts\<close>

text \<open>
  The rest of this section cuts \<^verbatim>\<open>applyMove\<close> in parts for the proofs: what
  holds between the store given and the store reached, and what the writes do
  to the rows of the new board, whatever the rows hold.

  \<open>ext h nb h'\<close>: the store \<open>h'\<close> holds every object of \<open>h\<close> as it is in \<open>h\<close>, and
  the rows of the board \<open>nb\<close> are objects that \<open>h\<close> does not have.
\<close>

definition ext :: "heap \<Rightarrow> nat \<Rightarrow> heap \<Rightarrow> bool" where
  "ext h nb h' \<longleftrightarrow> unchanged h h' \<and> (\<forall>ra \<in> set (boards h' ! nb). length (rowArrs h) \<le> ra)"

text \<open>
  \<open>good h nb\<close>: the board \<open>nb\<close> exists, no two of its rows are the same row
  object, and its rows exist.
\<close>

definition good :: "heap \<Rightarrow> nat \<Rightarrow> bool" where
  "good h nb \<longleftrightarrow>
     nb < length (boards h) \<and> distinct (boards h ! nb)
     \<and> (\<forall>ra \<in> set (boards h ! nb). ra < length (rowArrs h))"

text \<open>The statements of \<^verbatim>\<open>applyMove\<close> after the castling branch.\<close>

definition finish :: "heap \<Rightarrow> nat \<Rightarrow> nat \<Rightarrow> move \<Rightarrow> pieceType option \<Rightarrow> heap \<times> (error + nat)" where
  "finish h4 nb p mv promoteTo =
     (case writeCell h4 nb (fst (snd mv)) (snd (snd mv)) (Ref p) of
        Inl e \<Rightarrow> (h4, Inl e)
      | Inr h5 \<Rightarrow>
          (case writeCell h5 nb (fst (fst mv)) (snd (fst mv)) Null of
             Inl e \<Rightarrow> (h5, Inl e)
           | Inr h6 \<Rightarrow>
               (if otype (objects h6 ! p) = Some Pawn \<and> (fst (snd mv) = 0 \<or> fst (snd mv) = 7)
                then setType h6 p (case promoteTo of None \<Rightarrow> Queen | Some t \<Rightarrow> t)
                else h6, Inr nb)))"

text \<open>The copy of a row: its elements, none of its properties.\<close>

definition strip :: "'v arr \<Rightarrow> 'v arr" where
  "strip row = (fst row, [])"

text \<open>The fields that \<^verbatim>\<open>{ ...v }\<close> copies, and a promotion on an object.\<close>

definition srcObj :: "obj list \<Rightarrow> val \<Rightarrow> obj" where
  "srcObj os v = (case v of Ref a \<Rightarrow> os ! a | _ \<Rightarrow> emptyObj)"

definition promoteObj :: "obj \<Rightarrow> int \<Rightarrow> pieceType option \<Rightarrow> obj" where
  "promoteObj p tr promoteTo =
     (if otype p = Some Pawn \<and> (tr = 0 \<or> tr = 7)
      then p\<lparr>otype := Some (case promoteTo of None \<Rightarrow> Queen | Some t \<Rightarrow> t)\<rparr>
      else p)"

text \<open>
  The writes of the castling branch, the two writes after it, and all of
  them, on rows of any kind of element: \<open>pv\<close> is what stands for the moving
  piece and \<open>rv\<close> what stands for the rook.
\<close>

definition castleRows :: "'v \<Rightarrow> 'v \<Rightarrow> 'v arr list \<Rightarrow> int \<Rightarrow> bool \<Rightarrow> 'v \<Rightarrow> error + 'v arr list" where
  "castleRows undef null rows row isKingSide rv =
     (case writeB undef rows row (rookToCol isKingSide) rv of
        Inl e \<Rightarrow> Inl e
      | Inr nb \<Rightarrow> writeB undef nb row (rookFromCol isKingSide) null)"

definition moveRows :: "'v \<Rightarrow> 'v \<Rightarrow> 'v arr list \<Rightarrow> move \<Rightarrow> 'v \<Rightarrow> error + 'v arr list" where
  "moveRows undef null rows mv pv =
     (case writeB undef rows (fst (snd mv)) (snd (snd mv)) pv of
        Inl e \<Rightarrow> Inl e
      | Inr nb \<Rightarrow> writeB undef nb (fst (fst mv)) (snd (fst mv)) null)"

definition applyRows ::
  "'v \<Rightarrow> 'v \<Rightarrow> 'v arr list \<Rightarrow> move \<Rightarrow> bool \<Rightarrow> 'v \<Rightarrow> 'v \<Rightarrow> error + 'v arr list" where
  "applyRows undef null rows mv castling pv rv =
     (case (if castling
            then castleRows undef null rows (fst (fst mv)) (snd (snd mv) > snd (fst mv)) rv
            else Inr rows) of
        Inl e \<Rightarrow> Inl e
      | Inr nb \<Rightarrow> moveRows undef null nb mv pv)"

text \<open>
  From a board of values to a board of the sections above: a square holds a
  piece when its object has a type and a colour, and \<^verbatim>\<open>hasMoved\<close> is read as
  \<^verbatim>\<open>!p.hasMoved\<close> reads it.
\<close>

definition absVal :: "cval \<Rightarrow> piece option" where
  "absVal v =
     (case v of
        CObj x \<Rightarrow>
          (case (otype x, ocolor x) of
             (Some t, Some c) \<Rightarrow> Some \<lparr>ptype = t, color = c, hasMoved = (ohasMoved x = Some True)\<rparr>
           | _ \<Rightarrow> None)
      | _ \<Rightarrow> None)"

definition absBoard :: "cval arr list \<Rightarrow> board" where
  "absBoard C = map (\<lambda>row. map absVal (fst row)) C"

section \<open>Example positions\<close>

definition emptyRow :: "piece option list" where
  "emptyRow = [None, None, None, None, None, None, None, None]"

definition pc :: "pieceType \<Rightarrow> color \<Rightarrow> piece option" where
  "pc t col = Some \<lparr>ptype = t, color = col, hasMoved = True\<rparr>"

definition mateBoard :: board where
  "mateBoard =
     [[pc King Black, None, None, None, None, None, None, None],
      [None, pc Queen White, None, None, None, None, None, None],
      [None, None, pc King White, None, None, None, None, None],
      emptyRow, emptyRow, emptyRow, emptyRow, emptyRow]"

definition staleBoard :: board where
  "staleBoard =
     [[None, None, None, None, None, None, None, pc King Black],
      emptyRow, emptyRow, emptyRow, emptyRow,
      [None, pc Queen Black, None, None, None, None, None, None],
      emptyRow,
      [pc King White, None, None, None, None, None, None, None]]"

definition kinglessBoard :: board where
  "kinglessBoard =
     [[None, None, None, None, None, None, None, pc King Black],
      emptyRow, emptyRow, emptyRow, emptyRow, emptyRow, emptyRow,
      [pc Rook White, None, None, None, None, None, None, None]]"

definition castleBoard :: board where
  "castleBoard =
     [[None, None, None, None, mk King Black, None, None, None],
      emptyRow, emptyRow, emptyRow, emptyRow, emptyRow, emptyRow,
      [mk Rook White, None, None, None, mk King White, None, None, mk Rook White]]"

definition castleCheckBoard :: board where
  "castleCheckBoard =
     [[None, None, None, None, None, mk King Black, None, None],
      emptyRow, emptyRow, emptyRow, emptyRow, emptyRow, emptyRow,
      [mk Rook White, None, None, None, mk King White, None, None, mk Rook White]]"

definition promoBoard :: board where
  "promoBoard =
     [emptyRow,
      [mk Pawn White, None, None, None, None, None, None, None],
      emptyRow,
      [None, None, None, None, None, None, None, mk King Black],
      emptyRow, emptyRow, emptyRow,
      [None, None, None, None, mk King White, None, None, None]]"

text \<open>
  A position with two white kings: one on a1, one unmoved on e1 with the unmoved rook on h1,
  and a black rook on e8 that attacks e1.
\<close>

definition twoKingsBoard :: board where
  "twoKingsBoard =
     [[None, mk King Black, None, None, mk Rook Black, None, None, None],
      emptyRow, emptyRow, emptyRow, emptyRow, emptyRow, emptyRow,
      [mk King White, None, None, None, mk King White, None, None, mk Rook White]]"

text \<open>
  A store with two boards that share no object and hold the same position:
  black king e8, a white pawn on a7, white king e1 and white rook h1, both
  unmoved. The white king castles on the first board, then on the second.
\<close>

definition emptyRowH :: "val arr" where
  "emptyRowH = ([Null, Null, Null, Null, Null, Null, Null, Null], [])"

definition twoBoards :: heap where
  "twoBoards =
     \<lparr>boards = [[0, 1, 2, 3, 4, 5, 6, 7], [8, 9, 10, 11, 12, 13, 14, 15]],
      rowArrs =
        [([Null, Null, Null, Null, Ref 0, Null, Null, Null], []),
         ([Ref 1, Null, Null, Null, Null, Null, Null, Null], []),
         emptyRowH, emptyRowH, emptyRowH, emptyRowH, emptyRowH,
         ([Null, Null, Null, Null, Ref 2, Null, Null, Ref 3], []),
         ([Null, Null, Null, Null, Ref 4, Null, Null, Null], []),
         ([Ref 5, Null, Null, Null, Null, Null, Null, Null], []),
         emptyRowH, emptyRowH, emptyRowH, emptyRowH, emptyRowH,
         ([Null, Null, Null, Null, Ref 6, Null, Null, Ref 7], [])],
      objects =
        [\<lparr>otype = Some King, ocolor = Some Black, ohasMoved = Some False\<rparr>,
         \<lparr>otype = Some Pawn, ocolor = Some White, ohasMoved = Some True\<rparr>,
         \<lparr>otype = Some King, ocolor = Some White, ohasMoved = Some False\<rparr>,
         \<lparr>otype = Some Rook, ocolor = Some White, ohasMoved = Some False\<rparr>,
         \<lparr>otype = Some King, ocolor = Some Black, ohasMoved = Some False\<rparr>,
         \<lparr>otype = Some Pawn, ocolor = Some White, ohasMoved = Some True\<rparr>,
         \<lparr>otype = Some King, ocolor = Some White, ohasMoved = Some False\<rparr>,
         \<lparr>otype = Some Rook, ocolor = Some White, ohasMoved = Some False\<rparr>]\<rparr>"

definition firstCall :: "heap \<times> (error + nat)" where
  "firstCall = applyMoveH twoBoards 0 ((7, 4), (7, 6)) None"

definition secondCall :: "heap \<times> (error + nat)" where
  "secondCall = applyMoveH (fst firstCall) 1 ((7, 4), (7, 6)) None"

section \<open>The engine returns: no exception, no endless loop\<close>

lemma cell_rows8:
  "length board = 8 \<Longrightarrow> 0 \<le> r \<Longrightarrow> r < 8 \<Longrightarrow> \<exists>p. cell board r c = Inr p"
  by (simp add: cell_def Let_def)

lemma cell_sq:
  "length board = 8 \<Longrightarrow> 0 \<le> r \<Longrightarrow> r < 8 \<Longrightarrow> cell board r c = Inr (sq board r c)"
  by (simp add: sq_def cell_def Let_def)

lemma cell_Inl: "cell board r c = Inl e \<Longrightarrow> e = TypeError \<and> \<not> (0 \<le> r \<and> r < int (length board))"
  by (auto simp: cell_def Let_def split: if_splits)

lemma cell_Inr_iff: "(\<exists>p. cell board r c = Inr p) \<longleftrightarrow> 0 \<le> r \<and> r < int (length board)"
  by (auto simp: cell_def Let_def)

lemma anyE_total:
  "(\<And>x. x \<in> set xs \<Longrightarrow> \<exists>v. f x = Inr v) \<Longrightarrow> \<exists>v. anyE f xs = Inr v"
proof (induction xs)
  case Nil
  show ?case by auto
next
  case (Cons x xs)
  then obtain v where "f x = Inr v" by fastforce
  moreover from Cons obtain w where "anyE f xs = Inr w" by fastforce
  ultimately show ?case by auto
qed

lemma anyE_Inr_iff:
  "anyE f xs = Inr b \<Longrightarrow> b \<longleftrightarrow> (\<exists>x \<in> set xs. f x = Inr True)"
  by (induction xs) (auto split: sum.splits if_splits)

lemma collectE_total:
  "(\<And>x. x \<in> set xs \<Longrightarrow> \<exists>v. f x = Inr v) \<Longrightarrow> \<exists>v. collectE f xs = Inr v"
proof (induction xs)
  case Nil
  show ?case by simp
next
  case (Cons x xs)
  then obtain v where "f x = Inr v" by fastforce
  moreover from Cons obtain w where "collectE f xs = Inr w" by fastforce
  ultimately show ?case by simp
qed

lemma collectE_set:
  "collectE f xs = Inr ys \<Longrightarrow> y \<in> set ys \<longleftrightarrow> (\<exists>x \<in> set xs. \<exists>zs. f x = Inr zs \<and> y \<in> set zs)"
  by (induction xs arbitrary: ys) (auto split: sum.splits)

lemma foldE_total:
  "(\<And>x s. x \<in> set xs \<Longrightarrow> \<exists>v. f x s = Inr v) \<Longrightarrow> \<exists>v. foldE f xs s = Inr v"
proof (induction xs arbitrary: s)
  case Nil
  show ?case by simp
next
  case (Cons x xs)
  then obtain v where "f x s = Inr v" by fastforce
  moreover from Cons have "\<exists>w. foldE f xs v = Inr w" by simp
  ultimately show ?case by auto
qed


lemma slide_loop_total:
  assumes len: "length board = 8" and nz: "dr \<noteq> 0 \<or> dc \<noteq> 0"
  shows "\<exists>v. slide_loop board col dr dc types r c = Some (Inr v)"
proof -
  define m where "m = (\<lambda>(r::int) (c::int). if 0 < dr then 8 - r else if dr < 0 then r + 1
                             else if 0 < dc then 8 - c else c + 1)"
  have step: "m (r + dr) (c + dc) < m r c \<and> 0 < m r c"
    if "r \<ge> 0 \<and> r < 8 \<and> c \<ge> 0 \<and> c < 8" for r c
    using that nz by (auto simp: m_def)
  have "m r c \<le> int n \<Longrightarrow> \<exists>v. slide_loop board col dr dc types r c = Some (Inr v)" for n
  proof (induction n arbitrary: r c)
    case 0
    with step [of r c] have "\<not> (r \<ge> 0 \<and> r < 8 \<and> c \<ge> 0 \<and> c < 8)" by auto
    then show ?case by (subst slide_loop.simps) auto
  next
    case (Suc n)
    show ?case
    proof (cases "r \<ge> 0 \<and> r < 8 \<and> c \<ge> 0 \<and> c < 8")
      case False
      then show ?thesis by (subst slide_loop.simps) auto
    next
      case True
      with len obtain p where p: "cell board r c = Inr p"
        using cell_rows8 by blast
      from step [OF True] Suc.prems have "m (r + dr) (c + dc) \<le> int n" by simp
      from Suc.IH [OF this]
      obtain v where "slide_loop board col dr dc types (r + dr) (c + dc) = Some (Inr v)"
        by blast
      with True p show ?thesis
        by (subst slide_loop.simps) (simp split: option.split)
    qed
  qed
  from this [of "nat (m r c)"] show ?thesis by simp
qed

lemma slidingAttacks_total:
  assumes "length board = 8"
  shows "\<exists>v. slidingAttacks board pos col = Inr v"
  unfolding slidingAttacks_def
proof (rule anyE_total)
  fix d assume "d \<in> set directions"
  then have nz: "fst d \<noteq> 0 \<or> fst (snd d) \<noteq> 0"
    by (auto simp: directions_def)
  obtain dr dc types where d: "d = (dr, dc, types)" by (cases d) auto
  from slide_loop_total [OF assms, of dr dc col types "fst pos + dr" "snd pos + dc"] nz d
  show "\<exists>v. (case d of (dr, dc, types) \<Rightarrow>
              case slide_loop board col dr dc types (fst pos + dr) (snd pos + dc) of
                None \<Rightarrow> Inl Diverges | Some res \<Rightarrow> res) = Inr v"
    by auto
qed

lemma pawnAttacks_total:
  assumes "length board = 8"
  shows "\<exists>v. pawnAttacks board pos col = Inr v"
proof (cases "fst pos + (if col = White then 1 else - 1) \<ge> 0
              \<and> fst pos + (if col = White then 1 else - 1) < 8")
  case True
  then show ?thesis
    by (auto simp: pawnAttacks_def Let_def cell_sq [OF assms])
next
  case False
  then show ?thesis
    by (auto simp: pawnAttacks_def Let_def)
qed

lemma knightAttacks_total:
  assumes "length board = 8"
  shows "\<exists>v. knightAttacks board pos col = Inr v"
  unfolding knightAttacks_def
proof (rule anyE_total)
  fix m :: position
  show "\<exists>v. (if fst m \<ge> 0 \<and> fst m < 8 \<and> snd m \<ge> 0 \<and> snd m < 8
              then (case cell board (fst m) (snd m) of
                      Inl e \<Rightarrow> Inl e
                    | Inr p \<Rightarrow> Inr (isPiece p col Knight))
              else Inr False) = Inr v"
    by (cases "fst m \<ge> 0 \<and> fst m < 8") (auto simp: cell_sq [OF assms])
qed

lemma kingAttacks_total:
  assumes "length board = 8"
  shows "\<exists>v. kingAttacks board pos col = Inr v"
  unfolding kingAttacks_def
proof (rule anyE_total, rule anyE_total)
  fix r c :: int
  assume "r \<in> set [max 0 (fst pos - 1)..min 7 (fst pos + 1)]"
  then have "0 \<le> r" "r < 8" by auto
  then show "\<exists>v. (if r = fst pos \<and> c = snd pos then Inr False
                  else case cell board r c of
                         Inl e \<Rightarrow> Inl e
                       | Inr p \<Rightarrow> Inr (isPiece p col King)) = Inr v"
    by (auto simp: cell_sq [OF assms])
qed

lemma isSquareUnderAttack_total:
  assumes "length board = 8"
  shows "\<exists>v. isSquareUnderAttack board pos col = Inr v"
  unfolding isSquareUnderAttack_def
proof (rule anyE_total)
  fix part assume "part \<in> set [pawnAttacks, knightAttacks, kingAttacks, slidingAttacks]"
  then consider "part = pawnAttacks" | "part = knightAttacks" | "part = kingAttacks"
    | "part = slidingAttacks" by auto
  then show "\<exists>v. part board pos col = Inr v"
    using pawnAttacks_total [OF assms] knightAttacks_total [OF assms]
      kingAttacks_total [OF assms] slidingAttacks_total [OF assms]
    by cases blast+
qed

lemma firstKingInRow_total:
  "length board = 8 \<Longrightarrow> 0 \<le> r \<Longrightarrow> r < 8 \<Longrightarrow> \<exists>v. firstKingInRow board col r cs = Inr v"
  by (induction cs) (auto simp: cell_sq)

lemma findKing_total:
  "length board = 8 \<Longrightarrow> set rs \<subseteq> {0..7} \<Longrightarrow> \<exists>v. findKing board col kPos rs = Inr v"
proof (induction rs arbitrary: kPos)
  case Nil
  show ?case by simp
next
  case (Cons r rs)
  then obtain found where "firstKingInRow board col r [0..7] = Inr found"
    using firstKingInRow_total [of board r col "[0..7]"] by auto
  with Cons show ?case by simp
qed

lemma isInCheck_total:
  assumes "length board = 8"
  shows "\<exists>v. isInCheck board col = Inr v"
proof -
  obtain kPos where "findKing board col None [0..7] = Inr kPos"
    using findKing_total [OF assms, of "[0..7]"] by auto
  then show ?thesis
    using isSquareUnderAttack_total [OF assms]
    by (auto simp: isInCheck_def split: option.split)
qed

lemma setCell_Inr:
  "0 \<le> r \<Longrightarrow> r < int (length board) \<Longrightarrow>
   \<exists>nb. setCell board r c v = Inr nb \<and> length nb = length board"
  by (simp add: setCell_def Let_def)

lemma setCell_length:
  "setCell board r c v = Inr nb \<Longrightarrow> length nb = length board"
  by (auto simp: setCell_def Let_def split: if_splits)

lemma castleRook_Inr:
  assumes "cell newBoard row (rookFromCol isKingSide) = Inr (Some rk)"
  shows "\<exists>nb. castleRook newBoard row isKingSide = Inr nb \<and> length nb = length newBoard"
proof -
  from assms have row: "0 \<le> row" "row < int (length newBoard)"
    using cell_Inr_iff [of newBoard row] by blast+
  obtain nb1 where nb1: "setCell newBoard row (rookToCol isKingSide)
      (Some (rk\<lparr>hasMoved := True\<rparr>)) = Inr nb1" "length nb1 = length newBoard"
    using setCell_Inr [OF row] by blast
  obtain nb2 where "setCell nb1 row (rookFromCol isKingSide) None = Inr nb2"
      "length nb2 = length nb1"
    using setCell_Inr [of row nb1] row nb1(2) by metis
  with nb1 assms show ?thesis
    by (simp add: castleRook_def)
qed

lemma applyMove_Inr:
  assumes p: "cell board (fst fromP) (snd fromP) = Inr (Some p)"
    and tr: "0 \<le> fst toP" "fst toP < int (length board)"
    and rook: "ptype p = King \<and> \<bar>snd toP - snd fromP\<bar> = 2 \<longrightarrow>
      (\<exists>rk. cell board (fst fromP) (if snd toP > snd fromP then 7 else 0) = Inr (Some rk))"
  shows "\<exists>nb. applyMove board (fromP, toP) promoteTo = Inr nb \<and> length nb = length board"
proof -
  obtain fr fc where f: "fromP = (fr, fc)" by (cases fromP)
  obtain tr tc where t: "toP = (tr, tc)" by (cases toP)
  from p f have fr: "0 \<le> fr" "fr < int (length board)"
    using cell_Inr_iff [of board fr fc] by auto
  have "\<exists>nb1. (if ptype p = King \<and> \<bar>tc - fc\<bar> = 2
               then castleRook board fr (tc > fc) else Inr board) = Inr nb1
          \<and> length nb1 = length board"
    using rook castleRook_Inr [of board fr "tc > fc"] f t by (auto simp: rookFromCol_def)
  then obtain nb1 where nb1: "(if ptype p = King \<and> \<bar>tc - fc\<bar> = 2
               then castleRook board fr (tc > fc) else Inr board) = Inr nb1"
      "length nb1 = length board" by blast
  obtain nb2 where nb2: "setCell nb1 tr tc (Some (movedPiece p tr promoteTo)) = Inr nb2"
      "length nb2 = length nb1"
    using setCell_Inr [of tr nb1] assms(2,3) t nb1(2) by auto
  obtain nb3 where nb3: "setCell nb2 fr fc None = Inr nb3" "length nb3 = length nb2"
    using setCell_Inr [of fr nb2] fr nb1(2) nb2(2) by auto
  show ?thesis
    using p nb1 nb2 nb3 unfolding f t
    by (simp add: cloneBoard_def Let_def)
qed

lemma isPathClear_loop_aligned:
  assumes len: "length board = 8"
  shows "fst toP = r + int k * dr \<Longrightarrow> snd toP = c + int k * dc \<Longrightarrow> dr \<noteq> 0 \<or> dc \<noteq> 0 \<Longrightarrow>
    \<bar>dr\<bar> \<le> 1 \<Longrightarrow> 0 \<le> r \<Longrightarrow> r < 8 \<Longrightarrow> 0 \<le> fst toP \<Longrightarrow> fst toP < 8 \<Longrightarrow>
    isPathClear_loop board toP dr dc r c =
      Some (Inr (\<forall>j<k. sq board (r + int j * dr) (c + int j * dc) = None))"
proof (induction k arbitrary: r c)
  case 0
  then show ?case by (subst isPathClear_loop.simps) simp
next
  case (Suc k)
  have ne: "r \<noteq> fst toP \<or> c \<noteq> snd toP"
  proof -
    have "int (Suc k) * dr \<noteq> 0 \<or> int (Suc k) * dc \<noteq> 0" using Suc.prems(3) by simp
    with Suc.prems(1,2) show ?thesis by auto
  qed
  have cellrc: "cell board r c = Inr (sq board r c)"
    using cell_sq [OF len] Suc.prems by simp
  show ?case
  proof (cases "sq board r c")
    case (Some q)
    then have "\<not> (\<forall>j<Suc k. sq board (r + int j * dr) (c + int j * dc) = None)"
      by (auto intro: exI [of _ 0])
    with ne cellrc Some show ?thesis
      by (subst isPathClear_loop.simps) simp
  next
    case None
    have t1: "fst toP = (r + dr) + int k * dr" using Suc.prems(1) by (simp add: algebra_simps)
    have t2: "snd toP = (c + dc) + int k * dc" using Suc.prems(2) by (simp add: algebra_simps)
    have rng: "0 \<le> r + dr \<and> r + dr < 8"
    proof -
      consider "dr = 0" | "dr = 1" | "dr = - 1" using Suc.prems(4) by linarith
      then show ?thesis
      proof cases
        case 1
        then show ?thesis using Suc.prems by simp
      next
        case 2
        with t1 Suc.prems show ?thesis by simp
      next
        case 3
        with t1 Suc.prems show ?thesis by simp
      qed
    qed
    have IH: "isPathClear_loop board toP dr dc (r + dr) (c + dc) =
        Some (Inr (\<forall>j<k. sq board (r + dr + int j * dr) (c + dc + int j * dc) = None))"
      using Suc.IH [OF t1 t2 Suc.prems(3,4)] rng Suc.prems(7,8) by simp
    have "(\<forall>j<Suc k. sq board (r + int j * dr) (c + int j * dc) = None) \<longleftrightarrow>
          (\<forall>j<k. sq board (r + dr + int j * dr) (c + dc + int j * dc) = None)"
    proof
      assume a: "\<forall>j<Suc k. sq board (r + int j * dr) (c + int j * dc) = None"
      show "\<forall>j<k. sq board (r + dr + int j * dr) (c + dc + int j * dc) = None"
      proof (intro allI impI)
        fix j assume "j < k"
        then have "Suc j < Suc k" by simp
        with a have "sq board (r + int (Suc j) * dr) (c + int (Suc j) * dc) = None" by blast
        then show "sq board (r + dr + int j * dr) (c + dc + int j * dc) = None"
          by (simp add: algebra_simps)
      qed
    next
      assume a: "\<forall>j<k. sq board (r + dr + int j * dr) (c + dc + int j * dc) = None"
      show "\<forall>j<Suc k. sq board (r + int j * dr) (c + int j * dc) = None"
      proof (intro allI impI)
        fix j assume j: "j < Suc k"
        show "sq board (r + int j * dr) (c + int j * dc) = None"
        proof (cases j)
          case 0
          with None show ?thesis by simp
        next
          case (Suc j')
          with j a have "sq board (r + dr + int j' * dr) (c + dc + int j' * dc) = None" by simp
          with Suc show ?thesis by (simp add: algebra_simps)
        qed
      qed
    qed
    with ne cellrc None IH show ?thesis
      by (subst isPathClear_loop.simps) simp
  qed
qed


lemma isPathClear_aligned:
  assumes len: "length board = 8"
    and rows: "0 \<le> fst fromP" "fst fromP < 8" "0 \<le> fst toP" "fst toP < 8"
    and aligned: "fst toP = fst fromP \<or> snd toP = snd fromP
                  \<or> \<bar>fst toP - fst fromP\<bar> = \<bar>snd toP - snd fromP\<bar>"
  shows "isPathClear board fromP toP =
    Inr (\<forall>j::nat. 0 < j \<and> int j < max \<bar>fst toP - fst fromP\<bar> \<bar>snd toP - snd fromP\<bar> \<longrightarrow>
           sq board (fst fromP + int j * sgn (fst toP - fst fromP))
                    (snd fromP + int j * sgn (snd toP - snd fromP)) = None)"
proof -
  define yr where "yr = fst toP - fst fromP"
  define yc where "yc = snd toP - snd fromP"
  define n where "n = max \<bar>yr\<bar> \<bar>yc\<bar>"
  have al: "fst toP = fst fromP \<or> snd toP = snd fromP \<or> \<bar>yr\<bar> = \<bar>yc\<bar>"
    using aligned by (simp add: yr_def yc_def)
  have yr: "yr = n * sgn yr" using al
    by (auto simp: n_def yr_def yc_def sgn_if max_def abs_if split: if_splits)
  have yc: "yc = n * sgn yc" using al
    by (auto simp: n_def yr_def yc_def sgn_if max_def abs_if split: if_splits)
  show ?thesis
  proof (cases "n = 0")
    case True
    then have "yr = 0" "yc = 0" by (auto simp: n_def max_def split: if_splits)
    then have "fst toP = fst fromP" "snd toP = snd fromP" by (auto simp: yr_def yc_def)
    then show ?thesis
      by (simp add: isPathClear_def Let_def isPathClear_loop.simps [of board toP 0 0])
  next
    case False
    then have npos: "0 < n" by (auto simp: n_def max_def)
    then have nz: "sgn yr \<noteq> 0 \<or> sgn yc \<noteq> 0" by (auto simp: n_def max_def sgn_if)
    define k where "k = nat (n - 1)"
    have k: "int k = n - 1" using npos by (simp add: k_def)
    have t1: "fst toP = (fst fromP + sgn yr) + int k * sgn yr"
    proof -
      have "fst toP = fst fromP + yr" by (simp add: yr_def)
      also have "\<dots> = fst fromP + n * sgn yr" using yr by simp
      finally show ?thesis by (simp add: k algebra_simps)
    qed
    have t2: "snd toP = (snd fromP + sgn yc) + int k * sgn yc"
    proof -
      have "snd toP = snd fromP + yc" by (simp add: yc_def)
      also have "\<dots> = snd fromP + n * sgn yc" using yc by simp
      finally show ?thesis by (simp add: k algebra_simps)
    qed
    have rng: "0 \<le> fst fromP + sgn yr" "fst fromP + sgn yr < 8"
      using rows by (auto simp: yr_def sgn_if)
    have loop: "isPathClear_loop board toP (sgn yr) (sgn yc) (fst fromP + sgn yr) (snd fromP + sgn yc) =
      Some (Inr (\<forall>j<k. sq board (fst fromP + sgn yr + int j * sgn yr)
                                 (snd fromP + sgn yc + int j * sgn yc) = None))"
      using isPathClear_loop_aligned [OF len t1 t2 nz _ rng rows(3,4)]
      by (simp add: sgn_if)
    have "(\<forall>j<k. sq board (fst fromP + sgn yr + int j * sgn yr)
                          (snd fromP + sgn yc + int j * sgn yc) = None) \<longleftrightarrow>
          (\<forall>j::nat. 0 < j \<and> int j < n \<longrightarrow>
             sq board (fst fromP + int j * sgn yr) (snd fromP + int j * sgn yc) = None)"
    proof
      assume a: "\<forall>j<k. sq board (fst fromP + sgn yr + int j * sgn yr)
                          (snd fromP + sgn yc + int j * sgn yc) = None"
      show "\<forall>j::nat. 0 < j \<and> int j < n \<longrightarrow>
             sq board (fst fromP + int j * sgn yr) (snd fromP + int j * sgn yc) = None"
      proof (intro allI impI)
        fix j :: nat assume j: "0 < j \<and> int j < n"
        then obtain j' where j': "j = Suc j'" by (cases j) auto
        with j k have "j' < k" by simp
        with a have "sq board (fst fromP + sgn yr + int j' * sgn yr)
                          (snd fromP + sgn yc + int j' * sgn yc) = None" by blast
        then show "sq board (fst fromP + int j * sgn yr) (snd fromP + int j * sgn yc) = None"
          by (simp add: j' algebra_simps)
      qed
    next
      assume a: "\<forall>j::nat. 0 < j \<and> int j < n \<longrightarrow>
             sq board (fst fromP + int j * sgn yr) (snd fromP + int j * sgn yc) = None"
      show "\<forall>j<k. sq board (fst fromP + sgn yr + int j * sgn yr)
                          (snd fromP + sgn yc + int j * sgn yc) = None"
      proof (intro allI impI)
        fix j assume "j < k"
        with k have "0 < Suc j \<and> int (Suc j) < n" by simp
        with a have "sq board (fst fromP + int (Suc j) * sgn yr)
                              (snd fromP + int (Suc j) * sgn yc) = None" by blast
        then show "sq board (fst fromP + sgn yr + int j * sgn yr)
                          (snd fromP + sgn yc + int j * sgn yc) = None"
          by (simp add: algebra_simps)
      qed
    qed
    with loop show ?thesis
      by (simp add: isPathClear_def Let_def yr_def yc_def n_def)
  qed
qed

lemma isPathClear_loop_rows:
  assumes nz: "dr \<noteq> 0"
  shows "\<exists>v. isPathClear_loop board toP dr dc r c = Some v \<and> v \<noteq> Inl Diverges"
proof -
  define m where "m = (\<lambda>r::int. if 0 < dr then int (length board) - r else r + 1)"
  have step: "m (r + dr) < m r \<and> 0 < m r" if "0 \<le> r \<and> r < int (length board)" for r
    using that nz by (auto simp: m_def)
  have "m r \<le> int n \<Longrightarrow>
        \<exists>v. isPathClear_loop board toP dr dc r c = Some v \<and> v \<noteq> Inl Diverges" for n
  proof (induction n arbitrary: r c)
    case 0
    with step [of r] have out: "\<not> (0 \<le> r \<and> r < int (length board))" by auto
    then have "cell board r c = Inl TypeError" by (auto simp: cell_def)
    then show ?case by (subst isPathClear_loop.simps) auto
  next
    case (Suc n)
    show ?case
    proof (cases "cell board r c")
      case (Inl e)
      then have "e = TypeError" using cell_Inl by blast
      with Inl show ?thesis by (subst isPathClear_loop.simps) auto
    next
      case (Inr p)
      then have "0 \<le> r \<and> r < int (length board)" using cell_Inr_iff by blast
      from step [OF this] Suc.prems have "m (r + dr) \<le> int n" by simp
      from Suc.IH [OF this] obtain v where
        "isPathClear_loop board toP dr dc (r + dr) (c + dc) = Some v" "v \<noteq> Inl Diverges"
        by blast
      with Inr show ?thesis
        by (subst isPathClear_loop.simps) (auto split: option.split)
    qed
  qed
  from this [of "nat (m r)"] show ?thesis by simp
qed

lemma isPathClear_loop_cols:
  "r = fst toP \<Longrightarrow> snd toP = c + int k * dc \<Longrightarrow> dc \<noteq> 0 \<or> k = 0 \<Longrightarrow>
   \<exists>v. isPathClear_loop board toP 0 dc r c = Some v \<and> v \<noteq> Inl Diverges"
proof (induction k arbitrary: c)
  case 0
  then show ?case by (subst isPathClear_loop.simps) simp
next
  case (Suc k)
  show ?case
  proof (cases "cell board r c")
    case (Inl e)
    then have "e = TypeError" using cell_Inl by blast
    with Inl show ?thesis by (subst isPathClear_loop.simps) auto
  next
    case (Inr p)
    have "snd toP = (c + dc) + int k * dc" using Suc.prems(2) by (simp add: algebra_simps)
    from Suc.IH [OF Suc.prems(1) this] Suc.prems(3) obtain v where
      "isPathClear_loop board toP 0 dc r (c + dc) = Some v" "v \<noteq> Inl Diverges"
      by auto
    with Inr show ?thesis
      by (subst isPathClear_loop.simps) (auto split: option.split)
  qed
qed

lemma isPathClear_terminates: "isPathClear board fromP toP \<noteq> Inl Diverges"
proof -
  define yr where "yr = fst toP - fst fromP"
  define yc where "yc = snd toP - snd fromP"
  have "\<exists>v. isPathClear_loop board toP (sgn yr) (sgn yc) (fst fromP + sgn yr) (snd fromP + sgn yc)
          = Some v \<and> v \<noteq> Inl Diverges"
  proof (cases "sgn yr = 0")
    case False
    from isPathClear_loop_rows [OF this] show ?thesis by blast
  next
    case True
    then have r: "fst fromP + sgn yr = fst toP" by (simp add: yr_def sgn_if split: if_splits)
    have "snd toP = (snd fromP + sgn yc) + int (nat (\<bar>yc\<bar> - 1)) * sgn yc"
      by (auto simp: yc_def sgn_if algebra_simps)
    moreover have "sgn yc \<noteq> 0 \<or> nat (\<bar>yc\<bar> - 1) = 0" by (simp add: sgn_if)
    ultimately show ?thesis
      using isPathClear_loop_cols [OF r, of "snd fromP + sgn yc" "nat (\<bar>yc\<bar> - 1)" "sgn yc" board]
        True
      by simp
  qed
  then show ?thesis
    by (auto simp: isPathClear_def Let_def yr_def yc_def)
qed

lemma evaluateBoard_total:
  assumes "length board = 8"
  shows "\<exists>score. evaluateBoard board = Inr score"
  unfolding evaluateBoard_def
proof (rule foldE_total, rule foldE_total)
  fix r c :: int and s :: int
  assume "r \<in> set [0..7]"
  then have "0 \<le> r" "r < 8" by auto
  then show "\<exists>v. (case cell board r c of
                    Inl e \<Rightarrow> Inl e
                  | Inr p0 \<Rightarrow> (case p0 of
                      None \<Rightarrow> Inr s
                    | Some p \<Rightarrow> Inr (s + (if color p = Black then 1 else - 1) * VALS (ptype p))))
                 = Inr v"
    by (auto simp: cell_sq [OF assms] split: option.split)
qed

lemma pawnGeometry_total:
  assumes "length board = 8"
  shows "\<exists>v. pawnGeometry board p fromP toP target = Inr v"
proof (cases "snd fromP = snd toP \<and> fst toP = fst fromP + 2 * (if color p = White then - 1 else 1)
              \<and> fst fromP = (if color p = White then 6 else 1) \<and> target = None")
  case True
  then have "0 \<le> fst fromP + (if color p = White then - 1 else 1)"
    "fst fromP + (if color p = White then - 1 else 1) < 8" by (auto split: if_splits)
  from cell_sq [OF assms this] True show ?thesis
    by (auto simp: pawnGeometry_def Let_def)
next
  case False
  then show ?thesis
    by (auto simp: pawnGeometry_def Let_def)
qed

lemma isPathClear_total:
  assumes "length board = 8" "0 \<le> fst fromP" "fst fromP < 8" "0 \<le> fst toP" "fst toP < 8"
    and "fst toP = fst fromP \<or> snd toP = snd fromP
          \<or> \<bar>fst toP - fst fromP\<bar> = \<bar>snd toP - snd fromP\<bar>"
  shows "\<exists>v. isPathClear board fromP toP = Inr v"
  using isPathClear_aligned [OF assms] by blast

lemma castlingGeometry_total:
  assumes len: "length board = 8" and rows: "0 \<le> fst fromP" "fst fromP < 8"
  shows "\<exists>v. castlingGeometry board fromP toP turn checkSafety = Inr v"
proof -
  obtain chk where chk: "isInCheck board turn = Inr chk"
    using isInCheck_total [OF len] by blast
  have rook: "cell board (fst fromP) rc = Inr (sq board (fst fromP) rc)" for rc
    using cell_sq [OF len rows] by simp
  obtain clear where clear: "isPathClear board fromP (fst fromP, if snd fromP < snd toP then 7 else 0) = Inr clear"
    using isPathClear_total [OF len rows, of "(fst fromP, if snd fromP < snd toP then 7 else 0)"] rows
    by auto
  obtain att where att: "isSquareUnderAttack board
        (fst fromP, snd fromP + (if snd fromP < snd toP then 1 else - 1)) (opponentOf turn) = Inr att"
    using isSquareUnderAttack_total [OF len] by blast
  show ?thesis
    using chk rook clear att
    by (auto simp: castlingGeometry_def Let_def)
qed

lemma pieceGeometry_total:
  assumes len: "length board = 8"
    and rows: "0 \<le> fst fromP" "fst fromP < 8" "0 \<le> fst toP" "fst toP < 8"
  shows "\<exists>v. pieceGeometry board p fromP toP target turn checkSafety = Inr v"
proof (cases "ptype p")
  case King
  then show ?thesis
    using castlingGeometry_total [OF len rows(1,2)]
    by (auto simp: pieceGeometry_def Let_def)
next
  case Queen
  then show ?thesis
    using isPathClear_total [OF len rows]
    by (auto simp: pieceGeometry_def Let_def)
next
  case Rook
  then show ?thesis
    using isPathClear_total [OF len rows]
    by (auto simp: pieceGeometry_def Let_def)
next
  case Bishop
  then show ?thesis
    using isPathClear_total [OF len rows]
    by (auto simp: pieceGeometry_def Let_def)
next
  case Knight
  then show ?thesis
    by (auto simp: pieceGeometry_def Let_def)
next
  case Pawn
  then show ?thesis
    using pawnGeometry_total [OF len]
    by (auto simp: pieceGeometry_def Let_def)
qed

lemma castlingGeometry_rook:
  assumes "castlingGeometry board fromP toP turn checkSafety = Inr True"
  shows "\<exists>rk. cell board (fst fromP) (if snd toP > snd fromP then 7 else 0) = Inr (Some rk)
           \<and> ptype rk = Rook \<and> color rk = turn \<and> \<not> hasMoved rk"
  using assms
  by (auto simp: castlingGeometry_def Let_def split: sum.splits if_splits option.splits)

lemma pieceGeometry_castling:
  assumes "pieceGeometry board p fromP toP target turn checkSafety = Inr True"
    and "ptype p = King" and "\<bar>snd toP - snd fromP\<bar> = 2"
  shows "castlingGeometry board fromP toP turn checkSafety = Inr True
         \<and> \<not> hasMoved p \<and> fst toP = fst fromP"
  using assms
  by (auto simp: pieceGeometry_def Let_def split: if_splits)

lemma isValidMove_total:
  assumes len: "length board = 8"
    and rows: "0 \<le> fst fromP" "fst fromP < 8" "0 \<le> fst toP" "fst toP < 8"
  shows "\<exists>v. isValidMove board fromP toP turn checkSafety = Inr v"
proof -
  have cf: "cell board (fst fromP) (snd fromP) = Inr (sq board (fst fromP) (snd fromP))"
    using cell_sq [OF len rows(1,2)] by simp
  have ct: "cell board (fst toP) (snd toP) = Inr (sq board (fst toP) (snd toP))"
    using cell_sq [OF len rows(3,4)] by simp
  show ?thesis
  proof (cases "sq board (fst fromP) (snd fromP)")
    case None
    with cf ct show ?thesis by (auto simp: isValidMove_def)
  next
    case (Some p)
    obtain valid where valid: "pieceGeometry board p fromP toP
        (sq board (fst toP) (snd toP)) turn checkSafety = Inr valid"
      using pieceGeometry_total [OF len rows] by blast
    show ?thesis
    proof (cases "valid \<and> checkSafety")
      case False
      with cf ct Some valid show ?thesis by (auto simp: isValidMove_def)
    next
      case True
      have "ptype p = King \<and> \<bar>snd toP - snd fromP\<bar> = 2 \<longrightarrow>
        (\<exists>rk. cell board (fst fromP) (if snd toP > snd fromP then 7 else 0) = Inr (Some rk))"
        using pieceGeometry_castling [of board p fromP toP _ turn checkSafety]
          castlingGeometry_rook [of board fromP toP turn checkSafety] valid True
        by auto
      from applyMove_Inr [OF _ _ _ this, of None] cf Some rows len
      obtain nb where nb: "applyMove board (fromP, toP) None = Inr nb" "length nb = 8"
        by auto
      obtain chk where "isInCheck nb turn = Inr chk"
        using isInCheck_total [OF nb(2)] by blast
      with cf ct Some valid True nb show ?thesis by (auto simp: isValidMove_def)
    qed
  qed
qed


lemma isValidMove_True:
  assumes "isValidMove board fromP toP turn checkSafety = Inr True"
  shows "\<exists>p. cell board (fst fromP) (snd fromP) = Inr (Some p) \<and> color p = turn
           \<and> (\<exists>target. cell board (fst toP) (snd toP) = Inr target
                 \<and> (\<forall>t. target = Some t \<longrightarrow> color t \<noteq> turn)
                 \<and> pieceGeometry board p fromP toP target turn checkSafety = Inr True)"
  using assms
  by (auto simp: isValidMove_def split: sum.splits option.splits if_splits)

lemma isValidMove_safe:
  assumes "isValidMove board fromP toP turn True = Inr True"
  shows "\<exists>nb. applyMove board (fromP, toP) None = Inr nb \<and> isInCheck nb turn = Inr False"
  using assms
  by (auto simp: isValidMove_def split: sum.splits option.splits if_splits)

lemma collectE_parts:
  "collectE f xs = Inr ys \<Longrightarrow> x \<in> set xs \<Longrightarrow> \<exists>zs. f x = Inr zs"
  by (induction xs arbitrary: ys) (auto split: sum.splits)

lemma collectE_memberD:
  "collectE f xs = Inr ys \<Longrightarrow> y \<in> set ys \<Longrightarrow> \<exists>x \<in> set xs. \<exists>zs. f x = Inr zs \<and> y \<in> set zs"
  by (induction xs arbitrary: ys) (auto split: sum.splits)

lemma getAllMoves_total:
  assumes len: "length board = 8"
  shows "\<exists>moves. getAllMoves board col = Inr moves"
  unfolding getAllMoves_def
proof (rule collectE_total, rule collectE_total)
  fix r c :: int
  assume "r \<in> set [0..7]"
  then have r: "0 \<le> r" "r < 8" by auto
  have inner: "\<exists>v. collectE (\<lambda>tr. collectE (\<lambda>tc.
                      case isValidMove board (r, c) (tr, tc) col True of
                        Inl e \<Rightarrow> Inl e
                      | Inr ok \<Rightarrow> Inr (if ok then [((r, c), (tr, tc))] else [])) [0..7]) [0..7] = Inr v"
  proof (rule collectE_total, rule collectE_total)
    fix tr tc :: int
    assume "tr \<in> set [0..7]"
    then have "0 \<le> tr" "tr < 8" by auto
    with isValidMove_total [OF len, of "(r, c)" "(tr, tc)" col True] r
    obtain ok where "isValidMove board (r, c) (tr, tc) col True = Inr ok" by auto
    then show "\<exists>v. (case isValidMove board (r, c) (tr, tc) col True of
                      Inl e \<Rightarrow> Inl e
                    | Inr ok \<Rightarrow> Inr (if ok then [((r, c), (tr, tc))] else [])) = Inr v"
      by simp
  qed
  show "\<exists>v. (case cell board r c of
           Inl e \<Rightarrow> Inl e
         | Inr p \<Rightarrow>
             if (case p of None \<Rightarrow> False | Some q \<Rightarrow> color q = col)
             then collectE (\<lambda>tr. collectE (\<lambda>tc.
                      case isValidMove board (r, c) (tr, tc) col True of
                        Inl e \<Rightarrow> Inl e
                      | Inr ok \<Rightarrow> Inr (if ok then [((r, c), (tr, tc))] else [])) [0..7]) [0..7]
             else Inr []) = Inr v"
    using inner by (simp add: cell_sq [OF len r])
qed

lemma getAllMoves_member:
  assumes "getAllMoves board col = Inr moves" and "mv \<in> set moves"
  shows "fst (fst mv) \<in> {0..7} \<and> snd (fst mv) \<in> {0..7}
         \<and> fst (snd mv) \<in> {0..7} \<and> snd (snd mv) \<in> {0..7}
         \<and> (\<exists>q. cell board (fst (fst mv)) (snd (fst mv)) = Inr (Some q) \<and> color q = col)
         \<and> isValidMove board (fst mv) (snd mv) col True = Inr True"
proof -
  let ?attempt = "\<lambda>r c tr tc. case isValidMove board (r, c) (tr, tc) col True of
                        Inl e \<Rightarrow> Inl e
                      | Inr ok \<Rightarrow> Inr (if ok then [((r, c), (tr, tc))] else [])"
  let ?targets = "\<lambda>r c. collectE (\<lambda>tr. collectE (?attempt r c tr) [0..7]) [0..7]"
  let ?square = "\<lambda>r c. case cell board r c of
           Inl e \<Rightarrow> Inl e
         | Inr p \<Rightarrow> if (case p of None \<Rightarrow> False | Some q \<Rightarrow> color q = col)
                    then ?targets r c else Inr []"
  from collectE_memberD [OF assms(1) [unfolded getAllMoves_def] assms(2)]
  obtain r ms1 where r: "r \<in> set [0..7]"
    and l1: "collectE (?square r) [0..7] = Inr ms1" and m1: "mv \<in> set ms1"
    by blast
  from collectE_memberD [OF l1 m1]
  obtain c ms2 where c: "c \<in> set [0..7]"
    and l2: "?square r c = Inr ms2" and m2: "mv \<in> set ms2"
    by blast
  from l2 m2 obtain q where q: "cell board r c = Inr (Some q)" "color q = col"
    and l3: "?targets r c = Inr ms2"
    by (auto split: sum.splits option.splits if_splits)
  from collectE_memberD [OF l3 m2]
  obtain tr ms3 where tr: "tr \<in> set [0..7]"
    and l4: "collectE (?attempt r c tr) [0..7] = Inr ms3" and m3: "mv \<in> set ms3"
    by blast
  from collectE_memberD [OF l4 m3]
  obtain tc ms4 where tc: "tc \<in> set [0..7]"
    and l5: "?attempt r c tr tc = Inr ms4" and m4: "mv \<in> set ms4"
    by blast
  from l5 m4 have "isValidMove board (r, c) (tr, tc) col True = Inr True" "mv = ((r, c), (tr, tc))"
    by (auto split: sum.splits if_splits)
  with r c tr tc q show ?thesis by auto
qed

lemma firstKingInRow_none:
  assumes "length board = 8" "0 \<le> r" "r < 8"
  shows "(\<forall>c \<in> set cs. \<not> isPiece (sq board r c) col King) \<Longrightarrow>
         firstKingInRow board col r cs = Inr None"
  by (induction cs) (simp_all add: cell_sq [OF assms])

lemma firstKingInRow_first:
  assumes "length board = 8" "0 \<le> r" "r < 8"
  shows "(\<forall>c \<in> set pre. \<not> isPiece (sq board r c) col King) \<Longrightarrow>
         isPiece (sq board r kc) col King \<Longrightarrow>
         firstKingInRow board col r (pre @ kc # post) = Inr (Some (r, kc))"
  by (induction pre) (simp_all add: cell_sq [OF assms])

lemma findKing_no_king:
  assumes "length board = 8"
  shows "set rs \<subseteq> {0..7} \<Longrightarrow>
         (\<forall>r \<in> set rs. \<forall>c \<in> {0..7}. \<not> isPiece (sq board r c) col King) \<Longrightarrow>
         findKing board col kPos rs = Inr kPos"
proof (induction rs)
  case Nil
  show ?case by simp
next
  case (Cons r rs)
  then have "firstKingInRow board col r [0..7] = Inr None"
    using firstKingInRow_none [OF assms, of r "[0..7]" col] by auto
  with Cons show ?case by simp
qed

lemma findKing_append:
  "findKing board col kPos (xs @ ys) =
     (case findKing board col kPos xs of Inl e \<Rightarrow> Inl e | Inr k \<Rightarrow> findKing board col k ys)"
  by (induction xs arbitrary: kPos) (auto split: sum.splits)

lemma findKing_single_king:
  assumes len: "length board = 8"
    and k: "kr \<in> {0..7}" "kc \<in> {0..7}" "isPiece (sq board kr kc) col King"
    and uniq: "\<forall>r \<in> {0..7}. \<forall>c \<in> {0..7}. isPiece (sq board r c) col King \<longrightarrow> r = kr \<and> c = kc"
  shows "findKing board col None [0..7] = Inr (Some (kr, kc))"
proof -
  have kr: "0 \<le> kr" "kr \<le> 7" and kc: "0 \<le> kc" "kc \<le> 7" using k(1,2) by simp_all
  have rows: "[0..7] = [0..kr - 1] @ kr # [kr + 1..7]"
    using kr by (intro upto_split3) simp_all
  have cols: "[0..7] = [0..kc - 1] @ kc # [kc + 1..7]"
    using kc by (intro upto_split3) simp_all
  have nk: "\<not> isPiece (sq board r c) col King"
    if "0 \<le> r" "r \<le> 7" "c \<in> {0..7}" "r \<noteq> kr \<or> c \<noteq> kc" for r c
  proof -
    from that have "r \<in> {0..7}" by simp
    with uniq that(3) have "isPiece (sq board r c) col King \<longrightarrow> r = kr \<and> c = kc" by blast
    with that(4) show ?thesis by blast
  qed
  have before: "findKing board col None [0..kr - 1] = Inr None"
  proof (rule findKing_no_king [OF len])
    show "set [0..kr - 1] \<subseteq> {0..7}" using kr by auto
    show "\<forall>r \<in> set [0..kr - 1]. \<forall>c \<in> {0..7}. \<not> isPiece (sq board r c) col King"
    proof (intro ballI)
      fix r c :: int assume "r \<in> set [0..kr - 1]" and c: "c \<in> {0..7}"
      with kr have "0 \<le> r" "r \<le> 7" "r \<noteq> kr" by auto
      then show "\<not> isPiece (sq board r c) col King" using nk c by blast
    qed
  qed
  have after: "findKing board col (Some (kr, kc)) [kr + 1..7] = Inr (Some (kr, kc))"
  proof (rule findKing_no_king [OF len])
    show "set [kr + 1..7] \<subseteq> {0..7}" using kr by auto
    show "\<forall>r \<in> set [kr + 1..7]. \<forall>c \<in> {0..7}. \<not> isPiece (sq board r c) col King"
    proof (intro ballI)
      fix r c :: int assume "r \<in> set [kr + 1..7]" and c: "c \<in> {0..7}"
      with kr have "0 \<le> r" "r \<le> 7" "r \<noteq> kr" by auto
      then show "\<not> isPiece (sq board r c) col King" using nk c by blast
    qed
  qed
  have "\<forall>c \<in> set [0..kc - 1]. \<not> isPiece (sq board kr c) col King"
  proof
    fix c assume "c \<in> set [0..kc - 1]"
    with kc have "c \<in> {0..7}" "c \<noteq> kc" by auto
    then show "\<not> isPiece (sq board kr c) col King" using nk kr by blast
  qed
  then have "firstKingInRow board col kr ([0..kc - 1] @ kc # [kc + 1..7]) = Inr (Some (kr, kc))"
    using kr k(3) by (intro firstKingInRow_first [OF len]) simp_all
  then have row: "firstKingInRow board col kr [0..7] = Inr (Some (kr, kc))"
    by (subst cols)
  have "findKing board col None ([0..kr - 1] @ kr # [kr + 1..7]) = Inr (Some (kr, kc))"
    by (simp only: findKing_append findKing.simps before row after sum.case option.case)
  then show ?thesis by (subst rows)
qed

lemma ball_upto_0_7:
  "(\<forall>x \<in> {0..7::int}. P x) \<longleftrightarrow> P 0 \<and> P 1 \<and> P 2 \<and> P 3 \<and> P 4 \<and> P 5 \<and> P 6 \<and> P 7"
proof -
  have "{0..7::int} = {0, 1, 2, 3, 4, 5, 6, 7}" by auto
  then show ?thesis by simp
qed

lemma sq_eq:
  "sq board r c =
     (if 0 \<le> r \<and> r < int (length board) \<and> 0 \<le> c \<and> c < int (length (board ! nat r))
      then board ! nat r ! nat c else None)"
  by (simp add: sq_def cell_def Let_def)

lemma sq_setCell:
  assumes "setCell board r c v = Inr nb"
  shows "sq nb r' c' = (if r' = r \<and> c' = c \<and> 0 \<le> c then v else sq board r' c')"
proof -
  from assms have r: "0 \<le> r" "r < int (length board)"
    by (auto simp: setCell_def split: if_splits)
  define row where "row = board ! nat r"
  define row' where "row' = (if c < 0 then row
                  else if c < int (length row) then row[nat c := v]
                  else row @ replicate (nat c - length row) None @ [v])"
  have nb: "nb = board[nat r := row']"
    using assms r unfolding setCell_def Let_def row_def row'_def by (simp split: if_splits)
  show ?thesis
  proof (cases "r' = r")
    case False
    then have "nat r' \<noteq> nat r \<or> r' < 0" using r by auto
    then show ?thesis using False r
      by (auto simp: sq_eq nb)
  next
    case True
    have cellrow: "sq nb r x = (if 0 \<le> x \<and> x < int (length row') then row' ! nat x else None)"
      for x using r by (simp add: sq_eq nb)
    have old: "sq board r x = (if 0 \<le> x \<and> x < int (length row) then row ! nat x else None)"
      for x using r by (simp add: sq_eq row_def)
    consider "c < 0" | "0 \<le> c" "c < int (length row)" | "int (length row) \<le> c" by linarith
    then have "sq nb r c' = (if c' = c \<and> 0 \<le> c then v else sq board r c')"
    proof cases
      case 1
      then show ?thesis by (simp add: cellrow old row'_def)
    next
      case 2
      then show ?thesis
        by (auto simp: cellrow old row'_def nth_list_update nat_eq_iff)
    next
      case 3
      then have row': "row' = row @ replicate (nat c - length row) None @ [v]"
        by (simp add: row'_def)
      have len': "int (length row') = c + 1" using 3 by (simp add: row')
      show ?thesis
      proof (cases "0 \<le> c' \<and> c' < c + 1")
        case False
        with 3 show ?thesis by (auto simp: cellrow old len')
      next
        case True
        consider "c' < int (length row)" | "int (length row) \<le> c'" "c' < c" | "c' = c"
          using True by linarith
        then show ?thesis
        proof cases
          case 1
          with True have "nat c' < length row" "c' \<noteq> c \<or> c < 0"
            using \<open>int (length row) \<le> c\<close> by linarith+
          with 1 True show ?thesis
            by (auto simp: cellrow old len' row' nth_append)
        next
          case 2
          with True have "nat c' - length row < nat c - length row" "\<not> nat c' < length row"
            by linarith+
          with 2 True show ?thesis
            by (auto simp: cellrow old len' row' nth_append)
        next
          case 3
          with True \<open>int (length row) \<le> c\<close> have "nat c' - length row = nat c - length row"
            "\<not> nat c' < length row" by linarith+
          with 3 True \<open>int (length row) \<le> c\<close> show ?thesis
            by (simp add: cellrow old len' row' nth_append)
        qed
      qed
    qed
    with True show ?thesis by simp
  qed
qed


lemma cell_Inr_sq: "cell board r c = Inr p \<Longrightarrow> sq board r c = p"
  by (simp add: sq_def)

lemma castleRook_sq:
  assumes "castleRook board row isKingSide = Inr nb"
  shows "\<exists>rk. sq board row (rookFromCol isKingSide) = Some rk \<and>
    (\<forall>r c. sq nb r c =
       (if r = row \<and> c = rookFromCol isKingSide then None
        else if r = row \<and> c = rookToCol isKingSide then Some (rk\<lparr>hasMoved := True\<rparr>)
        else sq board r c))"
proof -
  from assms obtain rk nb1 where rk: "cell board row (rookFromCol isKingSide) = Inr (Some rk)"
    and w1: "setCell board row (rookToCol isKingSide) (Some (rk\<lparr>hasMoved := True\<rparr>)) = Inr nb1"
    and w2: "setCell nb1 row (rookFromCol isKingSide) None = Inr nb"
    by (auto simp: castleRook_def split: sum.splits option.splits)
  have "0 \<le> rookFromCol isKingSide" "0 \<le> rookToCol isKingSide"
    by (simp_all add: rookFromCol_def rookToCol_def)
  then show ?thesis
    by (simp add: cell_Inr_sq [OF rk] sq_setCell [OF w1] sq_setCell [OF w2])
qed

lemma applyMove_sq:
  assumes "applyMove board ((fr, fc), (tr, tc)) promoteTo = Inr nb"
  shows "\<exists>q. sq board fr fc = Some q \<and>
    (\<forall>r c. sq nb r c =
       (if r = fr \<and> c = fc then None
        else if r = tr \<and> c = tc \<and> 0 \<le> tc then Some (movedPiece q tr promoteTo)
        else if ptype q = King \<and> \<bar>tc - fc\<bar> = 2
        then (if r = fr \<and> c = rookFromCol (tc > fc) then None
              else if r = fr \<and> c = rookToCol (tc > fc)
              then map_option (\<lambda>rk. rk\<lparr>hasMoved := True\<rparr>) (sq board fr (rookFromCol (tc > fc)))
              else sq board r c)
        else sq board r c))"
proof -
  from assms obtain q where q: "cell board fr fc = Inr (Some q)"
    by (auto simp: cloneBoard_def Let_def split: sum.splits option.splits)
  then have sqq: "sq board fr fc = Some q" by (rule cell_Inr_sq)
  then have fc: "0 \<le> fc" by (auto simp: sq_eq split: if_splits)
  from assms q obtain nb1 nb2 where
    w0: "(if ptype q = King \<and> \<bar>tc - fc\<bar> = 2 then castleRook board fr (tc > fc) else Inr board) = Inr nb1"
    and w1: "setCell nb1 tr tc (Some (movedPiece q tr promoteTo)) = Inr nb2"
    and w2: "setCell nb2 fr fc None = Inr nb"
    by (auto simp: cloneBoard_def Let_def split: sum.splits)
  show ?thesis
  proof (cases "ptype q = King \<and> \<bar>tc - fc\<bar> = 2")
    case True
    with w0 have "castleRook board fr (tc > fc) = Inr nb1" by simp
    from castleRook_sq [OF this] obtain rk where
      rk: "sq board fr (rookFromCol (tc > fc)) = Some rk"
      and c: "\<And>r c. sq nb1 r c =
       (if r = fr \<and> c = rookFromCol (tc > fc) then None
        else if r = fr \<and> c = rookToCol (tc > fc) then Some (rk\<lparr>hasMoved := True\<rparr>)
        else sq board r c)" by blast
    have mo: "map_option (\<lambda>rk. rk\<lparr>hasMoved := True\<rparr>) (sq board fr (rookFromCol (tc > fc)))
        = Some (rk\<lparr>hasMoved := True\<rparr>)" using rk by simp
    show ?thesis
      unfolding mo using True fc
      by (simp add: sqq c sq_setCell [OF w1] sq_setCell [OF w2])
  next
    case False
    with w0 have nb1: "nb1 = board" by auto
    show ?thesis
      using False fc
      by (auto simp: sqq sq_setCell [OF w1 [unfolded nb1]] sq_setCell [OF w2])
  qed
qed

lemma checkSuffix_cases:
  assumes "length nb = 8"
  shows "\<exists>inCheck. isInCheck nb opp = Inr inCheck
          \<and> (\<not> inCheck \<longrightarrow> checkSuffix nb opp = Inr [])
          \<and> (inCheck \<longrightarrow> checkSuffix nb opp = Inr ''+'' \<or> checkSuffix nb opp = Inr ''#'')"
proof -
  obtain inCheck where "isInCheck nb opp = Inr inCheck"
    using isInCheck_total [OF assms] by blast
  moreover obtain moves where "getAllMoves nb opp = Inr moves"
    using getAllMoves_total [OF assms] by blast
  ultimately show ?thesis by (auto simp: checkSuffix_def)
qed

lemma digitsOf_chars: "set (digitsOf n) \<subseteq> set ''0123456789''"
proof (induction n rule: digitsOf.induct)
  case (1 n)
  show ?case
  proof (cases "n < 10")
    case True
    then have "''0123456789'' ! n \<in> set ''0123456789''" by (intro nth_mem) simp
    with True show ?thesis by (subst digitsOf.simps) simp
  next
    case False
    have "''0123456789'' ! (n mod 10) \<in> set ''0123456789''" by (intro nth_mem) simp
    with False 1 show ?thesis by (subst digitsOf.simps) auto
  qed
qed

lemma digitsOf_no_equals: "CHR ''='' \<notin> set (digitsOf n)"
proof -
  have "CHR ''='' \<notin> set ''0123456789''" by simp
  with digitsOf_chars [of n] show ?thesis by blast
qed

lemma showInt_no_equals: "CHR ''='' \<notin> set (showInt i)"
  by (simp add: showInt_def digitsOf_no_equals del: digitsOf.simps)

lemma fileName_no_equals: "CHR ''='' \<notin> set (fileName c)"
proof (cases "0 \<le> c \<and> c < 8")
  case True
  then have "c = 0 \<or> c = 1 \<or> c = 2 \<or> c = 3 \<or> c = 4 \<or> c = 5 \<or> c = 6 \<or> c = 7" by linarith
  then show ?thesis by (auto simp: fileName_def)
next
  case False
  then show ?thesis by (auto simp: fileName_def)
qed

lemma checkSuffix_no_equals: "checkSuffix nb opp = Inr s \<Longrightarrow> CHR ''='' \<notin> set s"
  by (auto simp: checkSuffix_def split: sum.splits if_splits)

lemma getSan_pawn_without_promotion:
  assumes p: "cell prevBoard (fst (fst mv)) (snd (fst mv)) = Inr (Some p)" "ptype p = Pawn"
    and san: "getSan prevBoard nextBoard mv None = Inr san"
  shows "CHR ''='' \<notin> set san"
proof -
  let ?dest = "fileName (snd (snd mv)) @ showInt (8 - fst (snd mv))"
  have eq: "getSan prevBoard nextBoard mv None =
    (case notNull prevBoard (fst (snd mv)) (snd (snd mv)) of
       Inl e \<Rightarrow> Inl e
     | Inr isCapture \<Rightarrow>
         (case checkSuffix nextBoard (opponentOf (color p)) of
            Inl e \<Rightarrow> Inl e
          | Inr suffix \<Rightarrow>
              Inr ((if isCapture then fileName (snd (fst mv)) @ ''x'' @ ?dest else ?dest) @ suffix)))"
    using p by (simp add: getSan_def Let_def cong: sum.case_cong)
  from san obtain isCapture suffix where
    s: "checkSuffix nextBoard (opponentOf (color p)) = Inr suffix"
    and v: "san = (if isCapture then fileName (snd (fst mv)) @ ''x'' @ ?dest else ?dest) @ suffix"
    unfolding eq by (auto split: sum.splits)
  have "CHR ''='' \<notin> set ?dest"
    using showInt_no_equals fileName_no_equals by simp
  with checkSuffix_no_equals [OF s] fileName_no_equals show ?thesis
    by (simp add: v)
qed

lemma applyMove_promotes_to_queen:
  assumes "applyMove board ((fr, fc), (tr, tc)) None = Inr nb"
    and "sq board fr fc = Some p" and "ptype p = Pawn" and "tr = 0 \<or> tr = 7"
    and "tr \<noteq> fr \<or> tc \<noteq> fc" and "0 \<le> tc"
  shows "sq nb tr tc = Some (p\<lparr>hasMoved := True, ptype := Queen\<rparr>)"
  using applyMove_sq [OF assms(1)] assms(2-)
  by (auto simp: movedPiece_def Let_def)

lemma castleRook_length: "castleRook board row ks = Inr nb \<Longrightarrow> length nb = length board"
  by (auto simp: castleRook_def dest!: setCell_length split: sum.splits option.splits)

lemma applyMove_length:
  assumes "applyMove board mv promoteTo = Inr nb"
  shows "length nb = length board"
proof -
  obtain fr fc tr tc where mv: "mv = ((fr, fc), (tr, tc))" by (cases mv) auto
  from assms [unfolded mv] obtain q nb1 nb2 where
    w0: "(if ptype q = King \<and> \<bar>tc - fc\<bar> = 2 then castleRook board fr (tc > fc) else Inr board) = Inr nb1"
    and w1: "setCell nb1 tr tc (Some (movedPiece q tr promoteTo)) = Inr nb2"
    and w2: "setCell nb2 fr fc None = Inr nb"
    by (auto simp: cloneBoard_def Let_def split: sum.splits option.splits)
  from w0 have "length nb1 = length board"
    by (auto dest: castleRook_length split: if_splits)
  with setCell_length [OF w1] setCell_length [OF w2] show ?thesis by simp
qed

lemma getAllMoves_apply:
  assumes "getAllMoves board col = Inr moves" and "mv \<in> set moves"
  shows "\<exists>nb. applyMove board mv None = Inr nb \<and> length nb = length board"
proof -
  from getAllMoves_member [OF assms]
  have "isValidMove board (fst mv) (snd mv) col True = Inr True" by blast
  from isValidMove_safe [OF this] obtain nb where "applyMove board mv None = Inr nb" by auto
  with applyMove_length [OF this] show ?thesis by blast
qed

lemma jmax_Fin: "x \<noteq> PosInf \<Longrightarrow> \<exists>w. jmax x (Fin v) = Fin w"
  by (cases x) (auto simp: jmax_def)

lemma jmin_Fin: "x \<noteq> NegInf \<Longrightarrow> \<exists>w. jmin x (Fin v) = Fin w"
  by (cases x) (auto simp: jmin_def)

lemma minimax_finite_aux:
  "(length board = 8 \<longrightarrow> (\<exists>v. minimax board d alpha beta isMaximizing = Inr (Fin v)))"
  "(length board = 8 \<longrightarrow> (\<forall>mv \<in> set moves. \<exists>nb. applyMove board mv None = Inr nb) \<longrightarrow>
      maxEval \<noteq> PosInf \<longrightarrow>
      (\<exists>x. maxLoop board d moves maxEval alpha beta = Inr x \<and> x \<noteq> PosInf
            \<and> (moves \<noteq> [] \<longrightarrow> x \<noteq> NegInf)))"
  "(length board = 8 \<longrightarrow> (\<forall>mv \<in> set moves. \<exists>nb. applyMove board mv None = Inr nb) \<longrightarrow>
      minEval \<noteq> NegInf \<longrightarrow>
      (\<exists>x. minLoop board d moves minEval alpha beta = Inr x \<and> x \<noteq> NegInf
            \<and> (moves \<noteq> [] \<longrightarrow> x \<noteq> PosInf)))"
proof (induction board d alpha beta isMaximizing and board d moves maxEval alpha beta
         and board d moves minEval alpha beta rule: minimax_maxLoop_minLoop.induct)
  case (1 board alpha beta isMaximizing)
  show ?case using evaluateBoard_total [of board] by auto
next
  case (2 board d alpha beta isMaximizing)
  show ?case
  proof
    assume len: "length board = 8"
    let ?col = "if isMaximizing then Black else White"
    obtain moves where moves: "getAllMoves board ?col = Inr moves"
      using getAllMoves_total [OF len] by blast
    obtain inCheck where chk: "isInCheck board ?col = Inr inCheck"
      using isInCheck_total [OF len] by blast
    have app: "\<forall>mv \<in> set moves. \<exists>nb. applyMove board mv None = Inr nb"
      using getAllMoves_apply [OF moves] by blast
    show "\<exists>v. minimax board (Suc d) alpha beta isMaximizing = Inr (Fin v)"
    proof (cases "moves = []")
      case True
      with moves chk show ?thesis by (simp add: Let_def)
    next
      case False
      show ?thesis
      proof (cases isMaximizing)
        case True
        with "2.IH"(1) [OF refl moves _ True] False len app
        obtain x where "maxLoop board d moves NegInf alpha beta = Inr x" "x \<noteq> PosInf" "x \<noteq> NegInf"
          by auto
        then show ?thesis using moves False True by (cases x) (auto simp: Let_def)
      next
        case F: False
        with "2.IH"(2) [OF refl moves _ F] False len app
        obtain x where "minLoop board d moves PosInf alpha beta = Inr x" "x \<noteq> PosInf" "x \<noteq> NegInf"
          by auto
        then show ?thesis using moves False F by (cases x) (auto simp: Let_def)
      qed
    qed
  qed
next
  case (3 board d maxEval alpha beta)
  show ?case by simp
next
  case (4 board d move rest maxEval alpha beta)
  show ?case
  proof (intro impI)
    assume len: "length board = 8"
      and app: "\<forall>mv \<in> set (move # rest). \<exists>nb. applyMove board mv None = Inr nb"
      and me: "maxEval \<noteq> PosInf"
    from app obtain nb where nb: "applyMove board move None = Inr nb" by auto
    have lnb: "length nb = 8" using applyMove_length [OF nb] len by simp
    from "4.IH"(1) [OF nb] lnb obtain v where v: "minimax nb d alpha beta False = Inr (Fin v)"
      by auto
    obtain w where w: "jmax maxEval (Fin v) = Fin w" using jmax_Fin [OF me] by blast
    show "\<exists>x. maxLoop board d (move # rest) maxEval alpha beta = Inr x \<and> x \<noteq> PosInf
            \<and> (move # rest \<noteq> [] \<longrightarrow> x \<noteq> NegInf)"
    proof (cases "jle beta (jmax alpha (Fin v))")
      case True
      with nb v w show ?thesis by simp
    next
      case False
      from "4.IH"(2) [OF nb v False] len app w
      obtain x where x: "maxLoop board d rest (Fin w) (jmax alpha (Fin v)) beta = Inr x"
        "x \<noteq> PosInf" "rest \<noteq> [] \<longrightarrow> x \<noteq> NegInf" by auto
      have "x \<noteq> NegInf"
      proof (cases rest)
        case Nil
        with x(1) show ?thesis by auto
      next
        case Cons
        with x(3) show ?thesis by simp
      qed
      with nb v w False x show ?thesis by simp
    qed
  qed
next
  case (5 board d minEval alpha beta)
  show ?case by simp
next
  case (6 board d move rest minEval alpha beta)
  show ?case
  proof (intro impI)
    assume len: "length board = 8"
      and app: "\<forall>mv \<in> set (move # rest). \<exists>nb. applyMove board mv None = Inr nb"
      and me: "minEval \<noteq> NegInf"
    from app obtain nb where nb: "applyMove board move None = Inr nb" by auto
    have lnb: "length nb = 8" using applyMove_length [OF nb] len by simp
    from "6.IH"(1) [OF nb] lnb obtain v where v: "minimax nb d alpha beta True = Inr (Fin v)"
      by auto
    obtain w where w: "jmin minEval (Fin v) = Fin w" using jmin_Fin [OF me] by blast
    show "\<exists>x. minLoop board d (move # rest) minEval alpha beta = Inr x \<and> x \<noteq> NegInf
            \<and> (move # rest \<noteq> [] \<longrightarrow> x \<noteq> PosInf)"
    proof (cases "jle (jmin beta (Fin v)) alpha")
      case True
      with nb v w show ?thesis by simp
    next
      case False
      from "6.IH"(2) [OF nb v False] len app w
      obtain x where x: "minLoop board d rest (Fin w) alpha (jmin beta (Fin v)) = Inr x"
        "x \<noteq> NegInf" "rest \<noteq> [] \<longrightarrow> x \<noteq> PosInf" by auto
      have "x \<noteq> PosInf"
      proof (cases rest)
        case Nil
        with x(1) show ?thesis by auto
      next
        case Cons
        with x(3) show ?thesis by simp
      qed
      with nb v w False x show ?thesis by simp
    qed
  qed
qed

lemma minimax_finite:
  "length board = 8 \<Longrightarrow> \<exists>v. minimax board d alpha beta isMaximizing = Inr (Fin v)"
  using minimax_finite_aux(1) by blast

lemma jless_NegInf_Fin: "jless NegInf (Fin v)"
  by (simp add: jless_def)

lemma jle_PosInf_jmax: "alpha \<noteq> PosInf \<Longrightarrow> \<not> jle PosInf (jmax alpha (Fin v))"
  by (cases alpha) (auto simp: jmax_def)

lemma jmax_not_PosInf: "alpha \<noteq> PosInf \<Longrightarrow> jmax alpha (Fin v) \<noteq> PosInf"
  by (cases alpha) (auto simp: jmax_def)

lemma bestLoop_result:
  assumes len: "length board = 8"
  shows "(\<forall>mv \<in> set moves. \<exists>nb. applyMove board mv None = Inr nb) \<Longrightarrow>
         maxVal = NegInf \<or> bestMove \<noteq> None \<Longrightarrow>
         \<exists>res. bestLoop board d moves bestMove maxVal alpha = Inr res
           \<and> (res = bestMove \<or> (\<exists>mv \<in> set moves. res = Some mv))
           \<and> (moves \<noteq> [] \<or> bestMove \<noteq> None \<longrightarrow> res \<noteq> None)"
proof (induction moves arbitrary: bestMove maxVal alpha)
  case Nil
  show ?case by simp
next
  case (Cons move rest)
  from Cons.prems(1) obtain nb where nb: "applyMove board move None = Inr nb" by auto
  have lnb: "length nb = 8" using applyMove_length [OF nb] len by simp
  obtain v where v: "minimax nb d alpha PosInf False = Inr (Fin v)"
    using minimax_finite [OF lnb] by blast
  define better where "better = jless maxVal (Fin v)"
  define bestMove' where "bestMove' = (if better then Some move else bestMove)"
  define maxVal' where "maxVal' = (if better then Fin v else maxVal)"
  have nn: "bestMove' \<noteq> None"
  proof (cases better)
    case True
    then show ?thesis by (simp add: bestMove'_def)
  next
    case False
    with Cons.prems(2) jless_NegInf_Fin [of v] have "bestMove \<noteq> None"
      by (auto simp: better_def)
    with False show ?thesis by (simp add: bestMove'_def)
  qed
  have step: "bestLoop board d (move # rest) bestMove maxVal alpha =
      (if jle PosInf (jmax alpha (Fin v)) then Inr bestMove'
       else bestLoop board d rest bestMove' maxVal' (jmax alpha (Fin v)))"
    using nb v by (simp add: Let_def bestMove'_def maxVal'_def better_def)
  have mem: "bestMove' = bestMove \<or> (\<exists>mv \<in> set (move # rest). bestMove' = Some mv)"
    by (cases better) (simp_all add: bestMove'_def)
  show ?case
  proof (cases "jle PosInf (jmax alpha (Fin v))")
    case True
    with step have "bestLoop board d (move # rest) bestMove maxVal alpha = Inr bestMove'"
      by (simp only: if_True)
    with nn mem show ?thesis by blast
  next
    case False
    from Cons.IH [where bestMove = bestMove' and maxVal = maxVal'
        and alpha = "jmax alpha (Fin v)"] Cons.prems(1) nn
    obtain res where res: "bestLoop board d rest bestMove' maxVal' (jmax alpha (Fin v)) = Inr res"
      "res = bestMove' \<or> (\<exists>mv \<in> set rest. res = Some mv)" "res \<noteq> None"
      by auto
    from step False res(1)
    have r1: "bestLoop board d (move # rest) bestMove maxVal alpha = Inr res"
      by (simp only: if_False)
    have r2: "res = bestMove \<or> (\<exists>mv \<in> set (move # rest). res = Some mv)"
      using res(2) mem by auto
    from r1 r2 res(3) show ?thesis by blast
  qed
qed





subsection \<open>Castling: the squares the king crosses\<close>


lemma firstKingInRow_Some:
  assumes "length board = 8" "0 \<le> r" "r < 8"
  shows "firstKingInRow board col r cs = Inr (Some k) \<Longrightarrow>
         fst k = r \<and> snd k \<in> set cs \<and> isPiece (sq board r (snd k)) col King"
  by (induction cs) (auto simp: cell_sq [OF assms] split: if_splits)

lemma findKing_Some:
  assumes len: "length board = 8"
  shows "set rs \<subseteq> {0..7} \<Longrightarrow> findKing board col kPos rs = Inr (Some k) \<Longrightarrow>
         kPos = Some k \<or> (fst k \<in> {0..7} \<and> snd k \<in> {0..7}
                             \<and> isPiece (sq board (fst k) (snd k)) col King)"
proof (induction rs arbitrary: kPos)
  case Nil
  then show ?case by simp
next
  case (Cons r rs)
  then have r: "0 \<le> r" "r < 8" by auto
  obtain found where found: "firstKingInRow board col r [0..7] = Inr found"
    using firstKingInRow_total [OF len r] by blast
  with Cons.prems have rec: "findKing board col (case found of None \<Rightarrow> kPos | Some k \<Rightarrow> Some k) rs
      = Inr (Some k)" by simp
  from Cons.IH [OF _ rec] Cons.prems(1)
  have alt: "(case found of None \<Rightarrow> kPos | Some k \<Rightarrow> Some k) = Some k
     \<or> (fst k \<in> {0..7} \<and> snd k \<in> {0..7} \<and> isPiece (sq board (fst k) (snd k)) col King)"
    by auto
  show ?case
  proof (cases found)
    case None
    with alt show ?thesis by simp
  next
    case (Some k')
    from firstKingInRow_Some [OF len r found [unfolded Some]] r
    have "fst k' \<in> {0..7} \<and> snd k' \<in> {0..7} \<and> isPiece (sq board (fst k') (snd k')) col King"
      by auto
    with alt Some show ?thesis by auto
  qed
qed

lemma isInCheck_False:
  assumes len: "length board = 8" and "isInCheck board col = Inr False"
  shows "\<exists>k. fst k \<in> {0..7} \<and> snd k \<in> {0..7} \<and> isPiece (sq board (fst k) (snd k)) col King
           \<and> isSquareUnderAttack board k (opponentOf col) = Inr False"
proof -
  obtain kPos where kPos: "findKing board col None [0..7] = Inr kPos"
    using findKing_total [OF len, of "[0..7]"] by auto
  with assms(2) obtain k where k: "kPos = Some k"
    "isSquareUnderAttack board k (opponentOf col) = Inr False"
    by (cases kPos) (auto simp: isInCheck_def)
  from findKing_Some [OF len _ kPos [unfolded k(1)]]
  have "fst k \<in> {0..7} \<and> snd k \<in> {0..7} \<and> isPiece (sq board (fst k) (snd k)) col King"
    by auto
  with k(2) show ?thesis by blast
qed

lemma castlingGeometry_True:
  assumes "castlingGeometry board fromP toP turn True = Inr True"
  shows "isInCheck board turn = Inr False
    \<and> isPathClear board fromP (fst fromP, if snd toP > snd fromP then 7 else 0) = Inr True
    \<and> isSquareUnderAttack board
         (fst fromP, snd fromP + (if snd toP > snd fromP then 1 else - 1)) (opponentOf turn)
        = Inr False"
  using assms
  by (auto simp: castlingGeometry_def Let_def split: sum.splits if_splits option.splits)

lemma isPathClear_row:
  assumes len: "length board = 8" and row: "0 \<le> r" "r < 8"
    and clear: "isPathClear board (r, c1) (r, c2) = Inr True"
    and between: "(c1 < c \<and> c < c2) \<or> (c2 < c \<and> c < c1)"
  shows "sq board r c = None"
proof -
  from isPathClear_aligned [OF len, of "(r, c1)" "(r, c2)"] row clear
  have all: "\<forall>j::nat. 0 < j \<and> int j < \<bar>c2 - c1\<bar> \<longrightarrow> sq board r (c1 + int j * sgn (c2 - c1)) = None"
    by simp
  from between show ?thesis
  proof
    assume b: "c1 < c \<and> c < c2"
    then have "0 < nat (c - c1) \<and> int (nat (c - c1)) < \<bar>c2 - c1\<bar>" by auto
    with all have "sq board r (c1 + int (nat (c - c1)) * sgn (c2 - c1)) = None" by blast
    with b show ?thesis by (simp add: sgn_if)
  next
    assume b: "c2 < c \<and> c < c1"
    then have "0 < nat (c1 - c) \<and> int (nat (c1 - c)) < \<bar>c2 - c1\<bar>" by auto
    with all have "sq board r (c1 + int (nat (c1 - c)) * sgn (c2 - c1)) = None" by blast
    with b show ?thesis by (simp add: sgn_if)
  qed
qed


lemma anyE_cong_list: "(\<And>x. x \<in> set xs \<Longrightarrow> f x = g x) \<Longrightarrow> anyE f xs = anyE g xs"
  by (induction xs) (auto split: sum.splits)

lemma anyE_False_iff: "anyE f xs = Inr False \<longleftrightarrow> (\<forall>x \<in> set xs. f x = Inr False)"
  by (induction xs) (auto split: sum.splits)

lemma slide_loop_frame:
  assumes len: "length b = 8" "length nb = 8"
    and agree: "\<And>r c. r \<noteq> row \<Longrightarrow> sq nb r c = sq b r c"
    and dr: "(0 < dr \<and> row < r) \<or> (dr < 0 \<and> r < row)"
  shows "slide_loop nb col dr dc types r c = slide_loop b col dr dc types r c"
proof -
  define m where "m = (\<lambda>r::int. if 0 < dr then 8 - r else r + 1)"
  have step: "m (r + dr) < m r \<and> 0 < m r" if "r \<ge> 0 \<and> r < 8" for r
    using that dr by (auto simp: m_def)
  have "m r \<le> int n \<Longrightarrow> (0 < dr \<and> row < r) \<or> (dr < 0 \<and> r < row) \<Longrightarrow>
        slide_loop nb col dr dc types r c = slide_loop b col dr dc types r c" for n
  proof (induction n arbitrary: r c)
    case 0
    with step [of r] have "\<not> (r \<ge> 0 \<and> r < 8 \<and> c \<ge> 0 \<and> c < 8)" by auto
    then show ?case
      by (subst slide_loop.simps, subst (2) slide_loop.simps) auto
  next
    case (Suc n)
    show ?case
    proof (cases "r \<ge> 0 \<and> r < 8 \<and> c \<ge> 0 \<and> c < 8")
      case False
      then show ?thesis
        by (subst slide_loop.simps, subst (2) slide_loop.simps) auto
    next
      case True
      from Suc.prems(2) have ne: "r \<noteq> row" by auto
      have c1: "cell nb r c = Inr (sq b r c)"
        using cell_sq [OF len(2), of r c] True agree [OF ne] by simp
      have c2: "cell b r c = Inr (sq b r c)"
        using cell_sq [OF len(1), of r c] True by simp
      from step [of r] True Suc.prems(1) have "m (r + dr) \<le> int n" by simp
      moreover from Suc.prems(2) have "(0 < dr \<and> row < r + dr) \<or> (dr < 0 \<and> r + dr < row)" by auto
      ultimately have IH: "slide_loop nb col dr dc types (r + dr) (c + dc)
          = slide_loop b col dr dc types (r + dr) (c + dc)" by (rule Suc.IH)
      show ?thesis
        by (subst slide_loop.simps, subst (2) slide_loop.simps)
           (simp add: c1 c2 IH True cong: option.case_cong)
    qed
  qed
  from this [of "nat (m r)"] dr show ?thesis by simp
qed

lemma slide_loop_blocked:
  assumes len: "length b = 8" and row: "0 \<le> r" "r < 8"
  shows "(\<forall>j<k. sq b r (c + int j * dc) = None) \<Longrightarrow>
         sq b r (c + int k * dc) = Some q \<Longrightarrow> color q \<noteq> col \<Longrightarrow>
         slide_loop b col 0 dc types r c = Some (Inr False)"
proof (induction k arbitrary: c)
  case 0
  then have s: "sq b r c = Some q" by simp
  then have "0 \<le> c" by (auto simp: sq_eq split: if_splits)
  show ?case
  proof (cases "c < 8")
    case True
    with \<open>0 \<le> c\<close> s 0 row show ?thesis
      by (subst slide_loop.simps) (simp add: cell_sq [OF len])
  next
    case False
    then show ?thesis by (subst slide_loop.simps) simp
  qed
next
  case (Suc k)
  have e: "sq b r c = None" using Suc.prems(1) by (auto dest: spec [of _ 0])
  have "\<forall>j<k. sq b r ((c + dc) + int j * dc) = None"
  proof (intro allI impI)
    fix j assume "j < k"
    then have "Suc j < Suc k" by simp
    with Suc.prems(1) have "sq b r (c + int (Suc j) * dc) = None" by blast
    then show "sq b r ((c + dc) + int j * dc) = None" by (simp add: algebra_simps)
  qed
  moreover have "sq b r ((c + dc) + int k * dc) = Some q"
    using Suc.prems(2) by (simp add: algebra_simps)
  ultimately have IH: "slide_loop b col 0 dc types r (c + dc) = Some (Inr False)"
    using Suc.prems(3) by (rule Suc.IH)
  show ?case
  proof (cases "c \<ge> 0 \<and> c < 8")
    case True
    with e IH row show ?thesis
      by (subst slide_loop.simps) (simp add: cell_sq [OF len])
  next
    case False
    then show ?thesis by (subst slide_loop.simps) auto
  qed
qed

lemma cell_frame:
  assumes len: "length b = 8" "length nb = 8"
    and agree: "\<And>r c. r \<noteq> row \<Longrightarrow> sq nb r c = sq b r c"
    and r: "r \<noteq> row" "0 \<le> r" "r < 8"
  shows "cell nb r c = cell b r c"
  using cell_sq [OF len(1) r(2,3)] cell_sq [OF len(2) r(2,3)] agree [OF r(1)] by simp

lemma pawnAttacks_frame:
  assumes len: "length b = 8" "length nb = 8"
    and agree: "\<And>r c. r \<noteq> row \<Longrightarrow> sq nb r c = sq b r c"
  shows "pawnAttacks nb (row, c) col = pawnAttacks b (row, c) col"
proof -
  define pawnRow where "pawnRow = row + (if col = White then 1 else - 1)"
  have ne: "pawnRow \<noteq> row" by (simp add: pawnRow_def)
  show ?thesis
  proof (cases "pawnRow \<ge> 0 \<and> pawnRow < 8")
    case True
    then have "cell nb pawnRow x = cell b pawnRow x" for x
      using cell_frame [OF len agree ne] by simp
    then show ?thesis
      by (simp add: pawnAttacks_def Let_def pawnRow_def [symmetric] cong: sum.case_cong if_cong)
  next
    case False
    then have "\<not> (pawnRow \<ge> 0 \<and> pawnRow < 8)" by simp
    then show ?thesis
      by (simp only: pawnAttacks_def Let_def fst_conv pawnRow_def [symmetric] if_False)
  qed
qed

lemma knightAttacks_frame:
  assumes len: "length b = 8" "length nb = 8"
    and agree: "\<And>r c. r \<noteq> row \<Longrightarrow> sq nb r c = sq b r c"
  shows "knightAttacks nb (row, c) col = knightAttacks b (row, c) col"
  unfolding knightAttacks_def
proof (rule anyE_cong_list)
  fix m assume "m \<in> set (knightMoves (row, c))"
  then have "fst m = row - 2 \<or> fst m = row - 1 \<or> fst m = row + 1 \<or> fst m = row + 2"
    unfolding knightMoves_def by fastforce
  then have "fst m \<noteq> row" by linarith
  from agree [OF this] show
    "(if fst m \<ge> 0 \<and> fst m < 8 \<and> snd m \<ge> 0 \<and> snd m < 8
      then (case cell nb (fst m) (snd m) of Inl e \<Rightarrow> Inl e
            | Inr p \<Rightarrow> Inr (isPiece p col Knight))
      else Inr False) =
     (if fst m \<ge> 0 \<and> fst m < 8 \<and> snd m \<ge> 0 \<and> snd m < 8
      then (case cell b (fst m) (snd m) of Inl e \<Rightarrow> Inl e
            | Inr p \<Rightarrow> Inr (isPiece p col Knight))
      else Inr False)"
    by (simp add: cell_sq [OF len(1)] cell_sq [OF len(2)])
qed

lemma kingAttacks_frame:
  assumes len: "length b = 8" "length nb = 8"
    and agree: "\<And>r c. r \<noteq> row \<Longrightarrow> sq nb r c = sq b r c"
    and beside: "\<And>x. x \<noteq> c \<Longrightarrow> \<bar>x - c\<bar> \<le> 1 \<Longrightarrow>
        isPiece (sq nb row x) col King = isPiece (sq b row x) col King"
  shows "kingAttacks nb (row, c) col = kingAttacks b (row, c) col"
  unfolding kingAttacks_def
proof (rule anyE_cong_list, rule anyE_cong_list)
  fix r x :: int
  assume "r \<in> set [max 0 (fst (row, c) - 1)..min 7 (fst (row, c) + 1)]"
    and "x \<in> set [max 0 (snd (row, c) - 1)..min 7 (snd (row, c) + 1)]"
  then have r: "0 \<le> r" "r < 8" and x: "\<bar>x - c\<bar> \<le> 1" by auto
  have "isPiece (sq nb r x) col King = isPiece (sq b r x) col King" if "\<not> (r = row \<and> x = c)"
  proof (cases "r = row")
    case True
    with that beside [of x] x show ?thesis by simp
  next
    case False
    from agree [OF this] show ?thesis by simp
  qed
  then show "(if r = fst (row, c) \<and> x = snd (row, c) then Inr False
              else case cell nb r x of Inl e \<Rightarrow> Inl e | Inr p \<Rightarrow> Inr (isPiece p col King)) =
             (if r = fst (row, c) \<and> x = snd (row, c) then Inr False
              else case cell b r x of Inl e \<Rightarrow> Inl e | Inr p \<Rightarrow> Inr (isPiece p col King))"
    using r by (simp add: cell_sq [OF len(1)] cell_sq [OF len(2)])
qed


lemma square_safe_before_castling:
  assumes len: "length b = 8" "length nb = 8" and row: "0 \<le> row" "row < 8"
    and agree: "\<And>r c. r \<noteq> row \<Longrightarrow> sq nb r c = sq b r c"
    and beside: "\<And>x. x \<noteq> tc \<Longrightarrow> \<bar>x - tc\<bar> \<le> 1 \<Longrightarrow>
        \<not> isPiece (sq nb row x) opp King \<and> \<not> isPiece (sq b row x) opp King"
    and left: "\<exists>k q. (\<forall>j<k. sq b row (tc - 1 + int j * (- 1)) = None)
                 \<and> sq b row (tc - 1 + int k * (- 1)) = Some q \<and> color q \<noteq> opp"
    and right: "\<exists>k q. (\<forall>j<k. sq b row (tc + 1 + int j * 1) = None)
                 \<and> sq b row (tc + 1 + int k * 1) = Some q \<and> color q \<noteq> opp"
    and safe: "isSquareUnderAttack nb (row, tc) opp = Inr False"
  shows "isSquareUnderAttack b (row, tc) opp = Inr False"
proof -
  from safe have parts: "pawnAttacks nb (row, tc) opp = Inr False"
    "knightAttacks nb (row, tc) opp = Inr False"
    "kingAttacks nb (row, tc) opp = Inr False"
    "slidingAttacks nb (row, tc) opp = Inr False"
    unfolding isSquareUnderAttack_def anyE_False_iff by simp_all
  have p: "pawnAttacks b (row, tc) opp = Inr False"
    using pawnAttacks_frame [OF len agree, where c = tc and col = opp] parts(1) by simp
  have n: "knightAttacks b (row, tc) opp = Inr False"
    using knightAttacks_frame [OF len agree, where c = tc and col = opp] parts(2) by simp
  have k: "kingAttacks b (row, tc) opp = Inr False"
    using kingAttacks_frame [OF len agree, where c = tc and col = opp] beside parts(3) by simp
  let ?ray = "\<lambda>board (d :: int \<times> int \<times> pieceType list).
     case d of (dr, dc, types) \<Rightarrow>
       (case slide_loop board opp dr dc types (fst (row, tc) + dr) (snd (row, tc) + dc) of
          Some res \<Rightarrow> res | None \<Rightarrow> Inl Diverges)"
  from parts(4) have rays: "\<forall>d \<in> set directions. ?ray nb d = Inr False"
    by (simp only: slidingAttacks_def anyE_False_iff)
  have "?ray b d = Inr False" if d: "d \<in> set directions" for d
  proof -
    obtain dr dc types where dd: "d = (dr, dc, types)" by (cases d) auto
    show ?thesis
    proof (cases "dr = 0")
      case False
      with d dd have "(0 < dr \<and> row < row + dr) \<or> (dr < 0 \<and> row + dr < row)" by auto
      from slide_loop_frame [OF len agree this, where col = opp and dc = dc
          and types = types and c = "tc + dc"]
      have "?ray b d = ?ray nb d" by (simp add: dd)
      with rays d show ?thesis by simp
    next
      case True
      with d dd have "dc = - 1 \<or> dc = 1" by (auto simp: directions_def)
      then show ?thesis
      proof
        assume dc: "dc = - 1"
        from left obtain k q where "\<forall>j<k. sq b row (tc - 1 + int j * (- 1)) = None"
          "sq b row (tc - 1 + int k * (- 1)) = Some q" "color q \<noteq> opp" by blast
        from slide_loop_blocked [OF len(1) row this, where types = types]
        show ?thesis by (simp add: dd True dc)
      next
        assume dc: "dc = 1"
        from right obtain k q where "\<forall>j<k. sq b row (tc + 1 + int j * 1) = None"
          "sq b row (tc + 1 + int k * 1) = Some q" "color q \<noteq> opp" by blast
        from slide_loop_blocked [OF len(1) row this, where types = types]
        show ?thesis by (simp add: dd True dc)
      qed
    qed
  qed
  then have s: "slidingAttacks b (row, tc) opp = Inr False"
    by (simp only: slidingAttacks_def anyE_False_iff) blast
  from p n k s show ?thesis
    unfolding isSquareUnderAttack_def anyE_False_iff by simp
qed


lemma opponentOf_neq: "opponentOf turn \<noteq> turn"
  by (cases turn) (simp_all add: opponentOf_def)

lemma isPiece_other_color:
  "p = None \<or> (\<exists>q. p = Some q \<and> color q = turn) \<Longrightarrow> \<not> isPiece p (opponentOf turn) ty"
  using opponentOf_neq [of turn] by (auto simp: isPiece_def)

section \<open>The store of \<^verbatim>\<open>applyMove\<close>\<close>

subsection \<open>The store: what a call leaves as it is\<close>

lemma unchanged_refl: "unchanged h h"
  by (simp add: unchanged_def)

lemma take_update_beyond: "n \<le> a \<Longrightarrow> take n (xs[a := v]) = take n xs"
  by simp

lemma take_eq_length: "take (length ys) xs = ys \<Longrightarrow> length ys \<le> length xs"
proof -
  assume a: "take (length ys) xs = ys"
  have "length (take (length ys) xs) = length ys" by (simp only: a)
  then show ?thesis by simp
qed

lemma cloneBoardH_ext: "cloneBoardH h b = (h1, nb) \<Longrightarrow> ext h nb h1"
  by (auto simp: cloneBoardH_def ext_def unchanged_def Let_def)

lemma spreadObj_ext:
  "ext h nb h1 \<Longrightarrow> spreadObj h1 v = (h2, a) \<Longrightarrow> ext h nb h2 \<and> length (objects h) \<le> a"
  by (auto simp: spreadObj_def ext_def unchanged_def dest: take_eq_length)

lemma setHasMoved_ext: "ext h nb h1 \<Longrightarrow> length (objects h) \<le> a \<Longrightarrow> ext h nb (setHasMoved h1 a)"
  by (auto simp: setHasMoved_def ext_def unchanged_def)

lemma setType_ext: "ext h nb h1 \<Longrightarrow> length (objects h) \<le> a \<Longrightarrow> ext h nb (setType h1 a t)"
  by (auto simp: setType_def ext_def unchanged_def)

lemma writeCell_ext: "ext h nb h1 \<Longrightarrow> writeCell h1 nb r c v = Inr h2 \<Longrightarrow> ext h nb h2"
  by (auto simp: writeCell_def ext_def unchanged_def Let_def split: if_splits)

lemma castleRookH_ext:
  assumes "ext h nb h1" "castleRookH h1 nb row k = (h2, res)"
  shows "ext h nb h2"
proof (cases "readCell h1 nb row (rookFromCol k)")
  case (Inl e)
  with assms show ?thesis by (simp add: castleRookH_def)
next
  case (Inr v)
  obtain ha rook where sp: "spreadObj h1 v = (ha, rook)" by (cases "spreadObj h1 v")
  from spreadObj_ext [OF assms(1) sp] have a: "ext h nb ha" "length (objects h) \<le> rook" by auto
  define hb where "hb = setHasMoved ha rook"
  from setHasMoved_ext [OF a] have b: "ext h nb hb" by (simp add: hb_def)
  have run: "castleRookH h1 nb row k =
      (case writeCell hb nb row (rookToCol k) (Ref rook) of
         Inl e \<Rightarrow> (hb, Inl e)
       | Inr h3 \<Rightarrow> (case writeCell h3 nb row (rookFromCol k) Null of
                      Inl e \<Rightarrow> (h3, Inl e) | Inr h4 \<Rightarrow> (h4, Inr ())))"
    by (simp add: castleRookH_def Inr sp hb_def Let_def split: sum.splits)
  show ?thesis
  proof (cases "writeCell hb nb row (rookToCol k) (Ref rook)")
    case (Inl e)
    with assms(2) b show ?thesis unfolding run by simp
  next
    case w1: (Inr h3)
    from writeCell_ext [OF b w1] have c: "ext h nb h3" .
    show ?thesis
    proof (cases "writeCell h3 nb row (rookFromCol k) Null")
      case (Inl e)
      with assms(2) c w1 show ?thesis unfolding run by simp
    next
      case w2: (Inr h4)
      from writeCell_ext [OF c w2] have "ext h nb h4" .
      with assms(2) w1 w2 show ?thesis unfolding run by simp
    qed
  qed
qed

lemma finish_ext:
  assumes e: "ext h nb h4" and p: "length (objects h) \<le> p"
    and f: "finish h4 nb p mv promoteTo = (h', res)"
  shows "ext h nb h'"
proof (cases "writeCell h4 nb (fst (snd mv)) (snd (snd mv)) (Ref p)")
  case (Inl e)
  with f e show ?thesis by (simp add: finish_def)
next
  case w1: (Inr h5)
  from writeCell_ext [OF e w1] have c: "ext h nb h5" .
  show ?thesis
  proof (cases "writeCell h5 nb (fst (fst mv)) (snd (fst mv)) Null")
    case (Inl e)
    with f c w1 show ?thesis by (simp add: finish_def)
  next
    case w2: (Inr h6)
    from writeCell_ext [OF c w2] have d: "ext h nb h6" .
    from setType_ext [OF d p] have "ext h nb (setType h6 p t)" for t .
    with f d w1 w2 show ?thesis by (auto simp: finish_def split: if_splits)
  qed
qed

lemma applyMoveH_run:
  assumes "cloneBoardH h b = (h1, nb)" "readCell h1 nb fr fc = Inr v" "spreadObj h1 v = (h2, p)"
    and "(if otype (objects (setHasMoved h2 p) ! p) = Some King \<and> \<bar>tc - fc\<bar> = 2
          then castleRookH (setHasMoved h2 p) nb fr (tc > fc)
          else (setHasMoved h2 p, Inr ())) = (h4, r4)"
  shows "applyMoveH h b ((fr, fc), (tr, tc)) promoteTo =
     (case r4 of Inl e \<Rightarrow> (h4, Inl e) | Inr u \<Rightarrow> finish h4 nb p ((fr, fc), (tr, tc)) promoteTo)"
  using assms by (simp add: finish_def split: sum.splits)

lemma applyMoveH_ext:
  assumes "applyMoveH h b mv promoteTo = (h', res)"
  shows "unchanged h h'"
proof -
  obtain fr fc tr tc where mv: "mv = ((fr, fc), (tr, tc))" by (metis surj_pair)
  obtain h1 nb where cl: "cloneBoardH h b = (h1, nb)" by (cases "cloneBoardH h b")
  from cloneBoardH_ext [OF cl] have e1: "ext h nb h1" .
  show ?thesis
  proof (cases "readCell h1 nb fr fc")
    case (Inl e)
    with assms mv cl e1 show ?thesis by (simp add: ext_def)
  next
    case (Inr v)
    obtain h2 p where sp: "spreadObj h1 v = (h2, p)" by (cases "spreadObj h1 v")
    from spreadObj_ext [OF e1 sp] have e2: "ext h nb h2" and p: "length (objects h) \<le> p" by auto
    define h3 where "h3 = setHasMoved h2 p"
    from setHasMoved_ext [OF e2 p] have e3: "ext h nb h3" by (simp add: h3_def)
    obtain h4 r4 where c4: "(if otype (objects h3 ! p) = Some King \<and> \<bar>tc - fc\<bar> = 2
          then castleRookH h3 nb fr (tc > fc) else (h3, Inr ())) = (h4, r4)"
      by (metis surj_pair)
    have e4: "ext h nb h4"
      using c4 e3 castleRookH_ext [OF e3, of fr "tc > fc" h4 r4]
      by (auto split: if_splits)
    note run = applyMoveH_run [OF cl Inr sp c4 [unfolded h3_def], of tr promoteTo]
    show ?thesis
    proof (cases r4)
      case (Inl e)
      with assms e4 show ?thesis unfolding mv run by (simp add: ext_def)
    next
      case (Inr u)
      with assms have "finish h4 nb p ((fr, fc), (tr, tc)) promoteTo = (h', res)"
        unfolding mv run by simp
      from finish_ext [OF e4 p this] show ?thesis by (simp add: ext_def)
    qed
  qed
qed

subsection \<open>Arrays and their images\<close>

lemma putProp_map:
  "map (\<lambda>kv. (fst kv, f (snd kv))) (putProp k v xs) = putProp k (f v) (map (\<lambda>kv. (fst kv, f (snd kv))) xs)"
  by (induction xs) auto

lemma map_of_mapArr:
  "map_of (map (\<lambda>kv. (fst kv, f (snd kv))) xs) k = map_option f (map_of xs k)"
  by (induction xs) auto

lemma getElem_mapArr: "getElem (f u) (mapArr f row) c = f (getElem u row c)"
  by (auto simp: getElem_def mapArr_def map_of_mapArr split: option.splits)

lemma putElem_mapArr: "mapArr f (putElem u row c v) = putElem (f u) (mapArr f row) c (f v)"
  by (auto simp: putElem_def mapArr_def putProp_map map_update)

lemma readB_mapArr:
  "readB (f u) (map (mapArr f) rows) r c = map_sum id f (readB u rows r c)"
  by (auto simp: readB_def getElem_mapArr nat_less_iff)

lemma writeB_mapArr:
  "writeB (f u) (map (mapArr f) rows) r c (f v) = map_sum id (map (mapArr f)) (writeB u rows r c v)"
  by (auto simp: writeB_def putElem_mapArr map_update nat_less_iff)

lemma strip_mapArr: "strip (mapArr f row) = mapArr f (strip row)"
  by (simp add: strip_def mapArr_def)

lemma mapArr_strip_cong:
  "(\<And>v. v \<in> set (fst row) \<Longrightarrow> f v = g v) \<Longrightarrow> mapArr f (strip row) = mapArr g (strip row)"
  by (simp add: strip_def mapArr_def)

subsection \<open>The steps of the call, on the rows of the new board\<close>

lemma map_nth_update_distinct:
  assumes "distinct bs" "i < length bs" "\<forall>ra \<in> set bs. ra < length xs"
  shows "map (\<lambda>ra. xs[bs ! i := x] ! ra) bs = (map (\<lambda>ra. xs ! ra) bs)[i := x]"
proof (rule nth_equalityI)
  show "length (map (\<lambda>ra. xs[bs ! i := x] ! ra) bs) = length ((map (\<lambda>ra. xs ! ra) bs)[i := x])"
    by simp
next
  fix j assume "j < length (map (\<lambda>ra. xs[bs ! i := x] ! ra) bs)"
  then have j: "j < length bs" by simp
  have in_range: "bs ! i < length xs" using assms(2,3) by simp
  show "map (\<lambda>ra. xs[bs ! i := x] ! ra) bs ! j = (map (\<lambda>ra. xs ! ra) bs)[i := x] ! j"
  proof (cases "j = i")
    case True
    with j in_range show ?thesis by simp
  next
    case False
    with assms(1,2) j have "bs ! j \<noteq> bs ! i" by (simp add: nth_eq_iff_index_eq)
    with j False show ?thesis by simp
  qed
qed

lemma cloneBoardH_rows:
  assumes "cloneBoardH h b = (h1, nb)"
  shows "good h1 nb" "rowsOf h1 nb = map strip (rowsOf h b)" "objects h1 = objects h"
proof -
  let ?n = "length (rowArrs h)"
  let ?k = "length (boards h ! b)"
  let ?copies = "map (\<lambda>ra. (fst (rowArrs h ! ra), [])) (boards h ! b) :: val arr list"
  from assms have b1: "boards h1 = boards h @ [[?n ..< ?n + ?k]]"
    and r1: "rowArrs h1 = rowArrs h @ ?copies"
    and o1: "objects h1 = objects h"
    and nb: "nb = length (boards h)"
    by (auto simp: cloneBoardH_def Let_def)
  have bnb: "boards h1 ! nb = [?n ..< ?n + ?k]"
    unfolding nb b1 by (simp only: nth_append_length)
  show "good h1 nb" unfolding good_def bnb r1 by (simp add: b1 nb)
  show "objects h1 = objects h" by (rule o1)
  have "map (\<lambda>ra. (rowArrs h @ ?copies) ! ra) [?n ..< ?n + ?k] = ?copies"
    by (rule nth_equalityI) (simp_all add: nth_append)
  then show "rowsOf h1 nb = map strip (rowsOf h b)"
    unfolding rowsOf_def bnb r1 by (simp add: strip_def)
qed

lemma spreadObj_rows:
  assumes "spreadObj h v = (h', a)"
  shows "good h' nb = good h nb" "rowsOf h' nb = rowsOf h nb"
    "objects h' = objects h @ [case v of Ref a \<Rightarrow> objects h ! a | _ \<Rightarrow> emptyObj]"
    "a = length (objects h)"
  using assms by (auto simp: spreadObj_def good_def rowsOf_def)

lemma setHasMoved_rows:
  "good (setHasMoved h a) nb = good h nb" "rowsOf (setHasMoved h a) nb = rowsOf h nb"
  "objects (setHasMoved h a) = (objects h)[a := (objects h ! a)\<lparr>ohasMoved := Some True\<rparr>]"
  by (simp_all add: setHasMoved_def good_def rowsOf_def)

lemma setType_rows:
  "good (setType h a t) nb = good h nb" "rowsOf (setType h a t) nb = rowsOf h nb"
  "objects (setType h a t) = (objects h)[a := (objects h ! a)\<lparr>otype := Some t\<rparr>]"
  by (simp_all add: setType_def good_def rowsOf_def)

lemma writeCell_Inl:
  "writeCell h nb r c v = Inl e \<Longrightarrow> writeB Undefined (rowsOf h nb) r c v = Inl e"
  by (auto simp: writeCell_def writeB_def rowsOf_def Let_def split: if_splits)

lemma writeCell_Inr:
  assumes "writeCell h nb r c v = Inr h'" "good h nb"
  shows "writeB Undefined (rowsOf h nb) r c v = Inr (rowsOf h' nb)"
    "good h' nb" "objects h' = objects h"
proof -
  from assms(1) have r: "0 \<le> r" "r < int (length (boards h ! nb))"
    and h': "h' = h\<lparr>rowArrs := (rowArrs h)[boards h ! nb ! nat r :=
                      putElem Undefined (rowArrs h ! (boards h ! nb ! nat r)) c v]\<rparr>"
    by (auto simp: writeCell_def Let_def split: if_splits)
  from r have i: "nat r < length (boards h ! nb)" by simp
  from assms(2) have d: "distinct (boards h ! nb)"
    and rng: "\<forall>ra \<in> set (boards h ! nb). ra < length (rowArrs h)" by (auto simp: good_def)
  show "good h' nb" using assms(2) by (simp add: h' good_def)
  show "objects h' = objects h" by (simp add: h')
  have "rowsOf h' nb = (rowsOf h nb)[nat r := putElem Undefined (rowArrs h ! (boards h ! nb ! nat r)) c v]"
    unfolding rowsOf_def using map_nth_update_distinct [OF d i rng] by (simp add: h')
  then show "writeB Undefined (rowsOf h nb) r c v = Inr (rowsOf h' nb)"
    using r i by (simp add: writeB_def rowsOf_def)
qed

lemma movedObj_promote: "movedObj q tr pr = promoteObj (q\<lparr>ohasMoved := Some True\<rparr>) tr pr"
  by (simp add: movedObj_def promoteObj_def Let_def)

lemma castleRows_mapArr:
  "castleRows (f u) (f n) (map (mapArr f) rows) row k (f rv)
   = map_sum id (map (mapArr f)) (castleRows u n rows row k rv)"
  by (cases "writeB u rows row (rookToCol k) rv")
     (simp_all add: castleRows_def writeB_mapArr)

lemma moveRows_mapArr:
  "moveRows (f u) (f n) (map (mapArr f) rows) mv (f pv)
   = map_sum id (map (mapArr f)) (moveRows u n rows mv pv)"
  by (cases "writeB u rows (fst (snd mv)) (snd (snd mv)) pv")
     (simp_all add: moveRows_def writeB_mapArr)

lemma applyRows_mapArr:
  "applyRows (f u) (f n) (map (mapArr f) rows) mv castling (f pv) (f rv)
   = map_sum id (map (mapArr f)) (applyRows u n rows mv castling pv rv)"
proof (cases castling)
  case False
  then show ?thesis by (simp add: applyRows_def moveRows_mapArr)
next
  case True
  then show ?thesis
    by (cases "castleRows u n rows (fst (fst mv)) (snd (snd mv) > snd (fst mv)) rv")
       (simp_all add: applyRows_def castleRows_mapArr moveRows_mapArr)
qed

lemma finish_rows:
  assumes g: "good h nb" and f: "finish h nb p mv pr = (h', res)" and p: "p < length (objects h)"
  shows "case moveRows Undefined Null (rowsOf h nb) mv (Ref p) of
           Inl e \<Rightarrow> res = Inl e
         | Inr R \<Rightarrow> res = Inr nb \<and> rowsOf h' nb = R \<and> good h' nb
                    \<and> objects h' = (objects h)[p := promoteObj (objects h ! p) (fst (snd mv)) pr]"
proof (cases "writeCell h nb (fst (snd mv)) (snd (snd mv)) (Ref p)")
  case (Inl e)
  from writeCell_Inl [OF Inl] f Inl show ?thesis by (simp add: moveRows_def finish_def)
next
  case w1: (Inr h5)
  note a = writeCell_Inr [OF w1 g]
  show ?thesis
  proof (cases "writeCell h5 nb (fst (fst mv)) (snd (fst mv)) Null")
    case (Inl e)
    from writeCell_Inl [OF Inl] f Inl w1 a(1) show ?thesis by (simp add: moveRows_def finish_def)
  next
    case w2: (Inr h6)
    note b = writeCell_Inr [OF w2 a(2)]
    have mr: "moveRows Undefined Null (rowsOf h nb) mv (Ref p) = Inr (rowsOf h6 nb)"
      by (simp add: moveRows_def a(1) b(1))
    have o6: "objects h6 = objects h" by (simp add: b(3) a(3))
    from f w1 w2 have res: "res = Inr nb"
      and h': "h' = (if otype (objects h6 ! p) = Some Pawn \<and> (fst (snd mv) = 0 \<or> fst (snd mv) = 7)
                     then setType h6 p (case pr of None \<Rightarrow> Queen | Some t \<Rightarrow> t) else h6)"
      by (auto simp: finish_def)
    have "rowsOf h' nb = rowsOf h6 nb" "good h' nb" using b(2) by (simp_all add: h' setType_rows)
    moreover have "objects h' = (objects h)[p := promoteObj (objects h ! p) (fst (snd mv)) pr]"
      by (auto simp: h' setType_rows o6 promoteObj_def)
    ultimately show ?thesis using res by (simp add: mr)
  qed
qed

lemma castleRookH_rows:
  assumes g: "good h nb" and c: "castleRookH h nb row k = (h', res)"
    and rd: "readB Undefined (rowsOf h nb) row (rookFromCol k) = Inr v"
  shows "good h' nb"
    "objects h' = objects h @ [(srcObj (objects h) v)\<lparr>ohasMoved := Some True\<rparr>]"
    "case castleRows Undefined Null (rowsOf h nb) row k (Ref (length (objects h))) of
       Inl e \<Rightarrow> res = Inl e
     | Inr R \<Rightarrow> res = Inr () \<and> rowsOf h' nb = R"
proof -
  obtain ha rook where sp: "spreadObj h v = (ha, rook)" by (cases "spreadObj h v")
  note s = spreadObj_rows [OF sp]
  define hb where "hb = setHasMoved ha rook"
  have gb: "good hb nb" and rb: "rowsOf hb nb = rowsOf h nb"
    and ob: "objects hb = objects h @ [(srcObj (objects h) v)\<lparr>ohasMoved := Some True\<rparr>]"
    using g s by (simp_all add: hb_def setHasMoved_rows srcObj_def)
  have rook: "rook = length (objects h)" by (rule s(4))
  have run: "castleRookH h nb row k =
      (case writeCell hb nb row (rookToCol k) (Ref rook) of
         Inl e \<Rightarrow> (hb, Inl e)
       | Inr h3 \<Rightarrow> (case writeCell h3 nb row (rookFromCol k) Null of
                      Inl e \<Rightarrow> (h3, Inl e) | Inr h4 \<Rightarrow> (h4, Inr ())))"
    using rd by (simp add: castleRookH_def readCell_def sp hb_def Let_def split: sum.splits)
  have "good h' nb \<and> objects h' = objects hb
     \<and> (case castleRows Undefined Null (rowsOf hb nb) row k (Ref rook) of
          Inl e \<Rightarrow> res = Inl e
        | Inr R \<Rightarrow> res = Inr () \<and> rowsOf h' nb = R)"
  proof (cases "writeCell hb nb row (rookToCol k) (Ref rook)")
    case (Inl e)
    from writeCell_Inl [OF Inl] c Inl gb show ?thesis
      unfolding run by (auto simp: castleRows_def)
  next
    case w1: (Inr h3)
    note a = writeCell_Inr [OF w1 gb]
    show ?thesis
    proof (cases "writeCell h3 nb row (rookFromCol k) Null")
      case (Inl e)
      from writeCell_Inl [OF Inl] c Inl w1 a show ?thesis
        unfolding run by (auto simp: castleRows_def)
    next
      case w2: (Inr h4)
      note b = writeCell_Inr [OF w2 a(2)]
      from c w1 w2 a b show ?thesis
        unfolding run by (auto simp: castleRows_def)
    qed
  qed
  then show "good h' nb"
    "objects h' = objects h @ [(srcObj (objects h) v)\<lparr>ohasMoved := Some True\<rparr>]"
    "case castleRows Undefined Null (rowsOf h nb) row k (Ref (length (objects h))) of
       Inl e \<Rightarrow> res = Inl e
     | Inr R \<Rightarrow> res = Inr () \<and> rowsOf h' nb = R"
    by (simp_all add: ob rb rook)
qed

subsection \<open>The result as a function of the board given\<close>

lemma cvalOf_append: "okv os v \<Longrightarrow> cvalOf (os @ xs) v = cvalOf os v"
  by (cases v) (simp_all add: okv_def cvalOf_def nth_append)

lemma srcObj_append: "okv os v \<Longrightarrow> srcObj (os @ xs) v = srcObj os v"
  by (cases v) (simp_all add: okv_def srcObj_def nth_append)

lemma spreadC_cvalOf: "spreadC (cvalOf os v) = srcObj os v"
  by (cases v) (simp_all add: spreadC_def cvalOf_def srcObj_def)

lemma getElem_strip: "getElem u (strip row) c = u \<or> getElem u (strip row) c \<in> set (fst row)"
  by (auto simp: getElem_def strip_def)

lemma readB_row:
  "readB u rows r c = Inr v \<Longrightarrow>
   0 \<le> r \<and> nat r < length rows \<and> v = getElem u (rows ! nat r) c
   \<and> readB u rows r c' = Inr (getElem u (rows ! nat r) c')"
  by (auto simp: readB_def split: if_splits)

lemma applyRows_no_castling:
  "\<not> castling \<Longrightarrow> applyRows u n rows mv castling pv rv = applyRows u n rows mv castling pv rv'"
  by (simp add: applyRows_def)

lemma wfBoard_okv:
  assumes "wfBoard h b" "row \<in> set (rowsOf h b)" "v \<in> set (fst row)"
  shows "okv (objects h) v"
  using assms by (auto simp: wfBoard_def allv_def)

lemma content_clone:
  assumes wf: "wfBoard h b"
  shows "map (mapArr (cvalOf (objects h @ xs))) (map strip (rowsOf h b)) = map strip (content h b)"
proof -
  have "mapArr (cvalOf (objects h @ xs)) (strip row) = strip (mapArr (cvalOf (objects h)) row)"
    if "row \<in> set (rowsOf h b)" for row
  proof -
    have "mapArr (cvalOf (objects h @ xs)) (strip row) = mapArr (cvalOf (objects h)) (strip row)"
      by (rule mapArr_strip_cong) (rule cvalOf_append, rule wfBoard_okv [OF wf that])
    then show ?thesis by (simp add: strip_mapArr)
  qed
  then show ?thesis by (simp add: content_def)
qed

lemma applyMoveC_rows:
  assumes "readB CUndefined (map strip C) fr fc = Inr v"
  shows "applyMoveC C ((fr, fc), (tr, tc)) pr =
     applyRows CUndefined CNull (map strip C) ((fr, fc), (tr, tc))
       (otype (spreadC v) = Some King \<and> \<bar>tc - fc\<bar> = 2)
       (CObj (movedObj (spreadC v) tr pr))
       (CObj ((spreadC (getElem CUndefined (map strip C ! nat fr) (rookFromCol (tc > fc))))
                \<lparr>ohasMoved := Some True\<rparr>))"
proof -
  from readB_row [OF assms, of "rookFromCol (tc > fc)"]
  have rd: "readB CUndefined (map strip C) fr (rookFromCol (tc > fc))
      = Inr (getElem CUndefined (map strip C ! nat fr) (rookFromCol (tc > fc)))" by simp
  have strip: "map (\<lambda>row. (fst row, [])) C = map strip C" by (simp add: strip_def)
  show ?thesis
  proof (cases "otype (spreadC v) = Some King \<and> \<bar>tc - fc\<bar> = 2")
    case True
    have "castleRookC (map strip C) fr (tc > fc) =
        castleRows CUndefined CNull (map strip C) fr (tc > fc)
          (CObj ((spreadC (getElem CUndefined (map strip C ! nat fr) (rookFromCol (tc > fc))))
                   \<lparr>ohasMoved := Some True\<rparr>))"
      by (simp add: castleRookC_def castleRows_def rd)
    with True show ?thesis
      by (simp add: strip assms applyRows_def moveRows_def Let_def cong: sum.case_cong)
  next
    case False
    show ?thesis
      by (simp add: strip assms applyRows_def moveRows_def Let_def if_not_P [OF False]
               cong: sum.case_cong)
  qed
qed

lemma applyMoveH_Inl:
  assumes "cloneBoardH h b = (h1, nb)" "readCell h1 nb fr fc = Inl e"
  shows "applyMoveH h b ((fr, fc), (tr, tc)) pr = (h1, Inl e)"
  using assms by simp

lemma applyMoveH_rows:
  assumes cl: "cloneBoardH h b = (h1, nb)"
    and rd: "readB Undefined (rowsOf h1 nb) fr fc = Inr v"
    and run: "applyMoveH h b ((fr, fc), (tr, tc)) pr = (h', res)"
  shows "case applyRows Undefined Null (rowsOf h1 nb) ((fr, fc), (tr, tc))
                (otype (srcObj (objects h) v) = Some King \<and> \<bar>tc - fc\<bar> = 2)
                (Ref (length (objects h))) (Ref (Suc (length (objects h)))) of
           Inl e \<Rightarrow> res = Inl e
         | Inr R \<Rightarrow>
             res = Inr nb \<and> rowsOf h' nb = R \<and> good h' nb
             \<and> objects h' = objects h @ [movedObj (srcObj (objects h) v) tr pr]
                 @ (if otype (srcObj (objects h) v) = Some King \<and> \<bar>tc - fc\<bar> = 2
                    then [(srcObj (objects h @ [(srcObj (objects h) v)\<lparr>ohasMoved := Some True\<rparr>])
                             (getElem Undefined (rowsOf h1 nb ! nat fr) (rookFromCol (tc > fc))))
                            \<lparr>ohasMoved := Some True\<rparr>]
                    else [])"
proof -
  let ?os = "objects h"
  let ?src = "srcObj ?os v"
  let ?p3 = "?src\<lparr>ohasMoved := Some True\<rparr>"
  let ?mv = "((fr, fc), (tr, tc))"
  let ?R1 = "rowsOf h1 nb"
  let ?rv = "getElem Undefined (?R1 ! nat fr) (rookFromCol (tc > fc))"
  let ?rk = "(srcObj (?os @ [?p3]) ?rv)\<lparr>ohasMoved := Some True\<rparr>"
  define cond where "cond \<longleftrightarrow> otype ?src = Some King \<and> \<bar>tc - fc\<bar> = 2"
  note c1 = cloneBoardH_rows [OF cl]
  obtain h2 p where sp: "spreadObj h1 v = (h2, p)" by (cases "spreadObj h1 v")
  note s = spreadObj_rows [OF sp]
  have p: "p = length ?os" using s(4) c1(3) by simp
  define h3 where "h3 = setHasMoved h2 p"
  have o2: "objects h2 = ?os @ [?src]"
    using s(3) c1(3) by (simp add: srcObj_def cong: val.case_cong)
  have g3: "good h3 nb" and r3: "rowsOf h3 nb = ?R1" and o3: "objects h3 = ?os @ [?p3]"
    using c1(1,2) s(1,2) by (simp_all add: h3_def setHasMoved_rows o2 p)
  have t3: "otype (objects h3 ! p) = otype ?src" by (simp add: o3 p)
  obtain h4 r4 where c4: "(if otype (objects h3 ! p) = Some King \<and> \<bar>tc - fc\<bar> = 2
          then castleRookH h3 nb fr (tc > fc) else (h3, Inr ())) = (h4, r4)"
    by (metis surj_pair)
  have rdc: "readCell h1 nb fr fc = Inr v" using rd by (simp add: readCell_def)
  note eq = applyMoveH_run [OF cl rdc sp c4 [unfolded h3_def], of tr pr]
  have pf: "(?os @ [?p3] @ xs)[length ?os := promoteObj ((?os @ [?p3] @ xs) ! length ?os) tr pr]
      = ?os @ [movedObj ?src tr pr] @ xs" for xs
    by (simp add: movedObj_promote list_update_append)
  show ?thesis
  proof (cases cond)
    case False
    with c4 have h4: "h4 = h3" "r4 = Inr ()" by (auto simp: cond_def t3 split: if_splits)
    from run have fin: "finish h3 nb p ?mv pr = (h', res)" unfolding eq by (simp add: h4)
    have ar: "applyRows Undefined Null ?R1 ?mv cond (Ref p) (Ref (Suc p))
        = moveRows Undefined Null (rowsOf h3 nb) ?mv (Ref p)"
      using False by (simp add: applyRows_def r3)
    from finish_rows [OF g3 fin] pf [of "[]"] False
    show ?thesis
      unfolding cond_def [symmetric] p [symmetric] ar
      by (auto simp: o3 p split: sum.splits)
  next
    case True
    with c4 have c: "castleRookH h3 nb fr (tc > fc) = (h4, r4)" by (simp add: cond_def t3)
    from readB_row [OF rd, of "rookFromCol (tc > fc)"]
    have rd3: "readB Undefined (rowsOf h3 nb) fr (rookFromCol (tc > fc)) = Inr ?rv"
      by (simp add: r3)
    note cr = castleRookH_rows [OF g3 c rd3]
    have o4: "objects h4 = ?os @ [?p3] @ [?rk]" using cr(2) by (simp add: o3)
    show ?thesis
    proof (cases "castleRows Undefined Null ?R1 fr (tc > fc) (Ref (Suc p))")
      case (Inl e)
      with cr(3) have "r4 = Inl e" by (simp add: r3 o3 p)
      with run have "res = Inl e" unfolding eq by simp
      with Inl True show ?thesis
        unfolding cond_def [symmetric] p [symmetric] by (simp add: applyRows_def)
    next
      case (Inr R4)
      with cr(3) have r4: "r4 = Inr ()" and R4: "rowsOf h4 nb = R4" by (simp_all add: r3 o3 p)
      from run have fin: "finish h4 nb p ?mv pr = (h', res)" unfolding eq by (simp add: r4)
      have ar: "applyRows Undefined Null ?R1 ?mv cond (Ref p) (Ref (Suc p))
          = moveRows Undefined Null (rowsOf h4 nb) ?mv (Ref p)"
        using True Inr by (simp add: applyRows_def R4)
      from finish_rows [OF cr(1) fin] pf [of "[?rk]"] True
      show ?thesis
        unfolding cond_def [symmetric] p [symmetric] ar
        by (auto simp: o4 p split: sum.splits)
    qed
  qed
qed

lemma read_clone_okv:
  assumes wf: "wfBoard h b"
    and rd: "readB Undefined (map strip (rowsOf h b)) r c = Inr v"
  shows "okv (objects h) (getElem Undefined (map strip (rowsOf h b) ! nat r) c')"
proof -
  from readB_row [OF rd] have r: "nat r < length (rowsOf h b)" by simp
  then have row: "rowsOf h b ! nat r \<in> set (rowsOf h b)" by simp
  from r have eq: "map strip (rowsOf h b) ! nat r = strip (rowsOf h b ! nat r)" by simp
  from getElem_strip [of Undefined "rowsOf h b ! nat r" c']
  show ?thesis
  proof
    assume "getElem Undefined (strip (rowsOf h b ! nat r)) c' = Undefined"
    then show ?thesis by (simp add: eq okv_def)
  next
    assume "getElem Undefined (strip (rowsOf h b ! nat r)) c' \<in> set (fst (rowsOf h b ! nat r))"
    from wfBoard_okv [OF wf row this] show ?thesis by (simp add: eq)
  qed
qed

lemma applyMoveH_content:
  assumes wf: "wfBoard h b" and run: "applyMoveH h b mv pr = (h', res)"
  shows "map_sum id (content h') res = applyMoveC (content h b) mv pr"
proof -
  obtain fr fc tr tc where mv: "mv = ((fr, fc), (tr, tc))" by (metis surj_pair)
  obtain h1 nb where cl: "cloneBoardH h b = (h1, nb)" by (cases "cloneBoardH h b")
  note c1 = cloneBoardH_rows [OF cl]
  let ?os = "objects h"
  let ?C1 = "map strip (content h b)"
  let ?R1 = "rowsOf h1 nb"
  have K: "map (mapArr (cvalOf (?os @ xs))) ?R1 = ?C1" for xs
    unfolding c1(2) by (rule content_clone [OF wf])
  have strip: "map (\<lambda>row. (fst row, [])) (content h b) = ?C1" by (simp add: strip_def)
  show ?thesis
  proof (cases "readB Undefined ?R1 fr fc")
    case (Inl e)
    then have "readCell h1 nb fr fc = Inl e" by (simp add: readCell_def)
    from applyMoveH_Inl [OF cl this, of tr tc pr] run have res: "res = Inl e" by (simp add: mv)
    from readB_mapArr [of "cvalOf (?os @ [])" Undefined ?R1 fr fc]
    have "readB CUndefined ?C1 fr fc = Inl e"
      unfolding K by (simp add: Inl cvalOf_def)
    then show ?thesis by (simp add: mv res strip)
  next
    case (Inr v)
    let ?src = "srcObj ?os v"
    let ?p3 = "?src\<lparr>ohasMoved := Some True\<rparr>"
    let ?rv = "getElem Undefined (?R1 ! nat fr) (rookFromCol (tc > fc))"
    let ?rk = "(srcObj ?os ?rv)\<lparr>ohasMoved := Some True\<rparr>"
    let ?pf = "movedObj ?src tr pr"
    define cond where "cond \<longleftrightarrow> otype ?src = Some King \<and> \<bar>tc - fc\<bar> = 2"
    define os' where "os' = ?os @ [?pf] @ (if cond then [?rk] else [])"
    define f where "f = cvalOf os'"
    have fr: "nat fr < length ?R1" using readB_row [OF Inr] by simp
    have v: "v = getElem Undefined (?R1 ! nat fr) fc" using readB_row [OF Inr] by simp
    have okv: "okv ?os (getElem Undefined (?R1 ! nat fr) c')" for c'
      using read_clone_okv [OF wf Inr [unfolded c1(2)]] by (simp add: c1(2))
    have ok_v: "okv ?os v" unfolding v by (rule okv)
    have src_rv: "srcObj (?os @ xs) ?rv = srcObj ?os ?rv" for xs
      by (rule srcObj_append [OF okv])
    have F1: "map (mapArr f) ?R1 = ?C1" unfolding f_def os'_def by (rule K)
    have f0: "f Undefined = CUndefined" "f Null = CNull" by (simp_all add: f_def cvalOf_def)
    have fp: "f (Ref (length ?os)) = CObj ?pf" by (simp add: f_def cvalOf_def os'_def)
    have frk: "f (Ref (Suc (length ?os))) = CObj ?rk" if cond
      using that by (simp add: f_def cvalOf_def os'_def nth_append)
    have sv: "spreadC (f v) = ?src"
      unfolding f_def os'_def spreadC_cvalOf by (rule srcObj_append [OF ok_v])
    have srv: "spreadC (f ?rv) = srcObj ?os ?rv"
      unfolding f_def os'_def spreadC_cvalOf by (rule srcObj_append [OF okv])
    from readB_mapArr [of f Undefined ?R1 fr fc]
    have rdC: "readB CUndefined ?C1 fr fc = Inr (f v)" by (simp add: F1 f0 Inr)
    have row: "?C1 ! nat fr = mapArr f (?R1 ! nat fr)"
      unfolding F1 [symmetric] using fr by simp
    have gC: "getElem CUndefined (?C1 ! nat fr) c' = f (getElem Undefined (?R1 ! nat fr) c')" for c'
      unfolding row using getElem_mapArr [of f Undefined] by (simp add: f0)
    have C: "applyMoveC (content h b) mv pr
        = applyRows CUndefined CNull ?C1 mv cond (CObj ?pf) (CObj ?rk)"
      unfolding mv applyMoveC_rows [OF rdC] gC srv sv cond_def ..
    have "applyRows CUndefined CNull ?C1 mv cond (CObj ?pf) (CObj ?rk)
        = applyRows (f Undefined) (f Null) (map (mapArr f) ?R1) mv cond
            (f (Ref (length ?os))) (f (Ref (Suc (length ?os))))"
    proof (cases cond)
      case True
      then show ?thesis by (simp add: F1 f0 fp frk)
    next
      case False
      from applyRows_no_castling [OF False] show ?thesis by (simp add: F1 f0 fp)
    qed
    then have C2: "applyMoveC (content h b) mv pr
        = map_sum id (map (mapArr f))
            (applyRows Undefined Null ?R1 mv cond (Ref (length ?os)) (Ref (Suc (length ?os))))"
      unfolding C applyRows_mapArr .
    note A = applyMoveH_rows [OF cl Inr run [unfolded mv], folded mv,
        unfolded src_rv, folded cond_def, folded os'_def]
    show ?thesis
    proof (cases "applyRows Undefined Null ?R1 mv cond (Ref (length ?os)) (Ref (Suc (length ?os)))")
      case (Inl e)
      with A have "res = Inl e" by simp
      then show ?thesis unfolding C2 Inl by simp
    next
      case R: (Inr R)
      with A have "res = Inr nb" "rowsOf h' nb = R" "objects h' = os'" by simp_all
      then show ?thesis unfolding C2 R by (simp add: content_def f_def)
    qed
  qed
qed

subsection \<open>What the rows of the result refer to\<close>

lemma putProp_set: "kv \<in> set (putProp k v xs) \<Longrightarrow> kv = (k, v) \<or> kv \<in> set xs"
  by (induction xs) (auto split: if_splits)

lemma allv_mono: "allv P rows \<Longrightarrow> (\<And>x. P x \<Longrightarrow> Q x) \<Longrightarrow> allv Q rows"
  by (auto simp: allv_def)

lemma allv_strip: "allv P rows \<Longrightarrow> allv P (map strip rows)"
  by (auto simp: allv_def strip_def)

lemma putElem_all:
  assumes "P u" "P v" "\<forall>x \<in> set (fst row). P x" "\<forall>kv \<in> set (snd row). P (snd kv)"
  shows "(\<forall>x \<in> set (fst (putElem u row c v)). P x)
       \<and> (\<forall>kv \<in> set (snd (putElem u row c v)). P (snd kv))"
proof -
  have "P x" if "x \<in> set ((fst row)[nat c := v])" for x
    using that assms(2,3) set_update_subset_insert [of "fst row" "nat c" v] by auto
  moreover have "P (snd kv)" if "kv \<in> set (putProp c v (snd row))" for kv
    using putProp_set [OF that] assms(2,4) by auto
  ultimately show ?thesis using assms by (auto simp: putElem_def)
qed

lemma writeB_allv:
  assumes "writeB u rows r c v = Inr rows'" "allv P rows" "P u" "P v"
  shows "allv P rows'"
proof -
  from assms(1) have r: "nat r < length rows"
    and rows': "rows' = rows[nat r := putElem u (rows ! nat r) c v]"
    by (auto simp: writeB_def split: if_splits)
  from r have "rows ! nat r \<in> set rows" by simp
  with assms(2) have "(\<forall>x \<in> set (fst (rows ! nat r)). P x)
      \<and> (\<forall>kv \<in> set (snd (rows ! nat r)). P (snd kv))"
    unfolding allv_def by blast
  with putElem_all [where P = P and u = u and v = v and row = "rows ! nat r" and c = c] assms(3,4)
  have new: "(\<forall>x \<in> set (fst (putElem u (rows ! nat r) c v)). P x)
      \<and> (\<forall>kv \<in> set (snd (putElem u (rows ! nat r) c v)). P (snd kv))" by simp
  show ?thesis
    unfolding allv_def
  proof
    fix row assume "row \<in> set rows'"
    then have "row = putElem u (rows ! nat r) c v \<or> row \<in> set rows"
      unfolding rows'
      using set_update_subset_insert [of rows "nat r" "putElem u (rows ! nat r) c v"] by blast
    with new assms(2) show "(\<forall>x \<in> set (fst row). P x) \<and> (\<forall>kv \<in> set (snd row). P (snd kv))"
      by (auto simp: allv_def)
  qed
qed

lemma moveRows_allv:
  assumes "moveRows u n rows mv pv = Inr rows'" "allv P rows" "P u" "P n" "P pv"
  shows "allv P rows'"
proof (cases "writeB u rows (fst (snd mv)) (snd (snd mv)) pv")
  case (Inl e)
  with assms(1) show ?thesis by (simp add: moveRows_def)
next
  case (Inr nb)
  from writeB_allv [OF Inr assms(2,3,5)] have "allv P nb" .
  with assms(1,3,4) Inr show ?thesis by (auto simp: moveRows_def intro: writeB_allv)
qed

lemma castleRows_allv:
  assumes "castleRows u n rows row k rv = Inr rows'" "allv P rows" "P u" "P n" "P rv"
  shows "allv P rows'"
proof (cases "writeB u rows row (rookToCol k) rv")
  case (Inl e)
  with assms(1) show ?thesis by (simp add: castleRows_def)
next
  case (Inr nb)
  from writeB_allv [OF Inr assms(2,3,5)] have "allv P nb" .
  with assms(1,3,4) Inr show ?thesis by (auto simp: castleRows_def intro: writeB_allv)
qed

lemma applyRows_allv:
  assumes run: "applyRows u n rows mv castling pv rv = Inr rows'"
    and "allv P rows" "P u" "P n" "P pv" and rv: "castling \<Longrightarrow> P rv"
  shows "allv P rows'"
proof (cases castling)
  case False
  with run have "moveRows u n rows mv pv = Inr rows'" by (simp add: applyRows_def)
  from moveRows_allv [OF this assms(2-5)] show ?thesis .
next
  case True
  show ?thesis
  proof (cases "castleRows u n rows (fst (fst mv)) (snd (snd mv) > snd (fst mv)) rv")
    case (Inl e)
    with run True show ?thesis by (simp add: applyRows_def)
  next
    case (Inr nb)
    from castleRows_allv [OF Inr assms(2-4) rv [OF True]] have nb: "allv P nb" .
    from run True Inr have "moveRows u n nb mv pv = Inr rows'" by (simp add: applyRows_def)
    from moveRows_allv [OF this nb assms(3-5)] show ?thesis .
  qed
qed

lemma okv_append: "okv os v \<Longrightarrow> okv (os @ xs) v"
  by (cases v) (simp_all add: okv_def)

lemma applyMoveH_wfBoard:
  assumes wf: "wfBoard h b" and run: "applyMoveH h b mv pr = (h', Inr n)"
  shows "wfBoard h' n"
proof -
  obtain fr fc tr tc where mv: "mv = ((fr, fc), (tr, tc))" by (metis surj_pair)
  obtain h1 nb where cl: "cloneBoardH h b = (h1, nb)" by (cases "cloneBoardH h b")
  note c1 = cloneBoardH_rows [OF cl]
  let ?os = "objects h"
  let ?R1 = "rowsOf h1 nb"
  show ?thesis
  proof (cases "readB Undefined ?R1 fr fc")
    case (Inl e)
    then have "readCell h1 nb fr fc = Inl e" by (simp add: readCell_def)
    from applyMoveH_Inl [OF cl this, of tr tc pr] run show ?thesis by (simp add: mv)
  next
    case (Inr v)
    define cond where "cond \<longleftrightarrow> otype (srcObj ?os v) = Some King \<and> \<bar>tc - fc\<bar> = 2"
    note A = applyMoveH_rows [OF cl Inr run [unfolded mv], folded cond_def]
    from wf have "allv (okv ?os) (rowsOf h b)" by (simp add: wfBoard_def)
    from allv_strip [OF this] have a1: "allv (okv ?os) ?R1" by (simp add: c1(2))
    show ?thesis
    proof (cases "applyRows Undefined Null ?R1 ((fr, fc), (tr, tc)) cond
                    (Ref (length ?os)) (Ref (Suc (length ?os)))")
      case (Inl e)
      with A show ?thesis by simp
    next
      case R: (Inr R)
      with A have n: "n = nb" and rows: "rowsOf h' nb = R" and g: "good h' nb"
        and os: "\<exists>x xs. objects h' = ?os @ [x] @ xs \<and> (cond \<longrightarrow> xs \<noteq> [])"
        by auto
      from os obtain x xs where os': "objects h' = ?os @ [x] @ xs" and xs: "cond \<Longrightarrow> xs \<noteq> []"
        by auto
      have a2: "allv (okv (objects h')) ?R1"
        by (rule allv_mono [OF a1]) (simp add: os' okv_append)
      have "allv (okv (objects h')) R"
      proof (rule applyRows_allv [OF R a2])
        show "okv (objects h') Undefined" "okv (objects h') Null"
          "okv (objects h') (Ref (length ?os))"
          by (simp_all add: okv_def os')
        show "okv (objects h') (Ref (Suc (length ?os)))" if cond
          using xs [OF that] by (cases xs) (simp_all add: okv_def os')
      qed
      with g show ?thesis by (simp add: wfBoard_def good_def n rows)
    qed
  qed
qed

subsection \<open>A board in a store that has grown\<close>

lemma unchanged_nth:
  assumes "unchanged h h'"
  shows "b < length (boards h) \<Longrightarrow> boards h' ! b = boards h ! b"
    "ra < length (rowArrs h) \<Longrightarrow> rowArrs h' ! ra = rowArrs h ! ra"
    "a < length (objects h) \<Longrightarrow> objects h' ! a = objects h ! a"
    "length (boards h) \<le> length (boards h')"
    "length (rowArrs h) \<le> length (rowArrs h')"
    "length (objects h) \<le> length (objects h')"
proof -
  from assms have t: "take (length (boards h)) (boards h') = boards h"
    "take (length (rowArrs h)) (rowArrs h') = rowArrs h"
    "take (length (objects h)) (objects h') = objects h"
    by (simp_all add: unchanged_def)
  show "b < length (boards h) \<Longrightarrow> boards h' ! b = boards h ! b"
    using nth_take [of b "length (boards h)" "boards h'"] t(1) by simp
  show "ra < length (rowArrs h) \<Longrightarrow> rowArrs h' ! ra = rowArrs h ! ra"
    using nth_take [of ra "length (rowArrs h)" "rowArrs h'"] t(2) by simp
  show "a < length (objects h) \<Longrightarrow> objects h' ! a = objects h ! a"
    using nth_take [of a "length (objects h)" "objects h'"] t(3) by simp
  show "length (boards h) \<le> length (boards h')" by (rule take_eq_length [OF t(1)])
  show "length (rowArrs h) \<le> length (rowArrs h')" by (rule take_eq_length [OF t(2)])
  show "length (objects h) \<le> length (objects h')" by (rule take_eq_length [OF t(3)])
qed

lemma unchanged_rowsOf:
  assumes u: "unchanged h h'" and wf: "wfBoard h b"
  shows "rowsOf h' b = rowsOf h b"
proof -
  from wf have b: "b < length (boards h)"
    and rows: "\<forall>ra \<in> set (boards h ! b). ra < length (rowArrs h)"
    by (simp_all add: wfBoard_def)
  show ?thesis
    unfolding rowsOf_def unchanged_nth(1) [OF u b]
    using rows unchanged_nth(2) [OF u] by simp
qed

lemma unchanged_content:
  assumes u: "unchanged h h'" and wf: "wfBoard h b"
  shows "content h' b = content h b"
proof -
  from wf have a: "allv (okv (objects h)) (rowsOf h b)" by (simp add: wfBoard_def)
  have v: "cvalOf (objects h') x = cvalOf (objects h) x" if "okv (objects h) x" for x
    using that unchanged_nth(3) [OF u] by (cases x) (simp_all add: okv_def cvalOf_def)
  have "mapArr (cvalOf (objects h')) row = mapArr (cvalOf (objects h)) row"
    if "row \<in> set (rowsOf h b)" for row
    using that a v by (auto simp: mapArr_def allv_def)
  then show ?thesis by (simp add: content_def unchanged_rowsOf [OF u wf])
qed

lemma unchanged_wfBoard:
  assumes u: "unchanged h h'" and wf: "wfBoard h b"
  shows "wfBoard h' b"
proof -
  from wf have b: "b < length (boards h)"
    and rows: "\<forall>ra \<in> set (boards h ! b). ra < length (rowArrs h)"
    and a: "allv (okv (objects h)) (rowsOf h b)"
    by (simp_all add: wfBoard_def)
  have "okv (objects h') x" if "okv (objects h) x" for x
    using that unchanged_nth(6) [OF u] by (cases x) (simp_all add: okv_def)
  from allv_mono [OF a this] have "allv (okv (objects h')) (rowsOf h' b)"
    by (simp add: unchanged_rowsOf [OF u wf])
  moreover have "b < length (boards h')" using b unchanged_nth(4) [OF u] by simp
  moreover have "\<forall>ra \<in> set (boards h' ! b). ra < length (rowArrs h')"
    unfolding unchanged_nth(1) [OF u b] using rows unchanged_nth(5) [OF u] by auto
  ultimately show ?thesis by (simp add: wfBoard_def)
qed

lemma unchanged_trans: "unchanged h h' \<Longrightarrow> unchanged h' h'' \<Longrightarrow> unchanged h h''"
proof -
  have t: "take (length xs) zs = xs" if "take (length xs) ys = xs" "take (length ys) zs = ys"
    for xs ys zs :: "'a list"
  proof -
    from take_eq_length [OF that(1)] have "min (length xs) (length ys) = length xs" by simp
    then have "take (length xs) (take (length ys) zs) = take (length xs) zs" by simp
    with that show ?thesis by simp
  qed
  assume "unchanged h h'" "unchanged h' h''"
  then show ?thesis unfolding unchanged_def by (auto intro: t)
qed

subsection \<open>The store and the boards of the other sections\<close>

lemma absBoard_strip: "absBoard (map strip C) = absBoard C"
  by (simp add: absBoard_def strip_def)

lemma absVal_simps: "absVal CNull = None" "absVal CUndefined = None"
  by (simp_all add: absVal_def)

lemma cell_absBoard:
  "cell (absBoard (map strip C)) r c = map_sum id absVal (readB CUndefined (map strip C) r c)"
  by (auto simp: cell_def readB_def absBoard_def getElem_def strip_def absVal_simps nat_less_iff)

lemma setCell_absBoard:
  "setCell (absBoard C) r c (absVal v) = map_sum id absBoard (writeB CUndefined C r c v)"
  by (auto simp: setCell_def writeB_def absBoard_def putElem_def Let_def map_update
                 absVal_simps nat_less_iff list_update_same_conv)

lemma absVal_Some:
  assumes "absVal v = Some q"
  shows "otype (spreadC v) = Some (ptype q)"
    "absVal (CObj ((spreadC v)\<lparr>ohasMoved := Some True\<rparr>)) = Some (q\<lparr>hasMoved := True\<rparr>)"
    "absVal (CObj (movedObj (spreadC v) tr pr)) = Some (movedPiece q tr pr)"
  using assms
  by (auto simp: absVal_def spreadC_def movedObj_def movedPiece_def Let_def
           split: cval.splits option.splits)

lemma castleRookC_castleRook:
  assumes "castleRook (absBoard C) row k \<noteq> Inl NotAPiece"
  shows "map_sum id absBoard (castleRookC (map strip C) row k) = castleRook (absBoard C) row k"
proof (cases "readB CUndefined (map strip C) row (rookFromCol k)")
  case (Inl e)
  with cell_absBoard [of C row "rookFromCol k"] show ?thesis
    by (simp add: castleRook_def castleRookC_def absBoard_strip)
next
  case (Inr rv)
  with cell_absBoard [of C row "rookFromCol k"]
  have c: "cell (absBoard C) row (rookFromCol k) = Inr (absVal rv)" by (simp add: absBoard_strip)
  with assms obtain rk where rk: "absVal rv = Some rk"
    by (cases "absVal rv") (auto simp: castleRook_def)
  let ?rook = "CObj ((spreadC rv)\<lparr>ohasMoved := Some True\<rparr>)"
  have w1: "setCell (absBoard C) row (rookToCol k) (Some (rk\<lparr>hasMoved := True\<rparr>))
      = map_sum id absBoard (writeB CUndefined (map strip C) row (rookToCol k) ?rook)"
    using setCell_absBoard [of "map strip C" row "rookToCol k" ?rook]
    by (simp add: absVal_Some(2) [OF rk] absBoard_strip)
  show ?thesis
  proof (cases "writeB CUndefined (map strip C) row (rookToCol k) ?rook")
    case (Inl e)
    with w1 c rk Inr show ?thesis by (simp add: castleRook_def castleRookC_def)
  next
    case w: (Inr nb)
    from setCell_absBoard [of nb row "rookFromCol k" CNull]
    have "setCell (absBoard nb) row (rookFromCol k) None
        = map_sum id absBoard (writeB CUndefined nb row (rookFromCol k) CNull)"
      by (simp add: absVal_simps)
    with w1 w c rk Inr show ?thesis by (simp add: castleRook_def castleRookC_def)
  qed
qed

lemma applyMoveC_applyMove:
  assumes "applyMove (absBoard C) mv pr \<noteq> Inl NotAPiece"
  shows "map_sum id absBoard (applyMoveC C mv pr) = applyMove (absBoard C) mv pr"
proof -
  obtain fr fc tr tc where mv: "mv = ((fr, fc), (tr, tc))" by (metis surj_pair)
  let ?C1 = "map strip C"
  have strip: "map (\<lambda>row. (fst row, [])) C = ?C1" by (simp add: strip_def)
  have clone: "cloneBoard (absBoard C) = absBoard C" by (simp add: cloneBoard_def)
  show ?thesis
  proof (cases "readB CUndefined ?C1 fr fc")
    case (Inl e)
    with cell_absBoard [of C fr fc] show ?thesis
      by (simp add: mv strip clone absBoard_strip)
  next
    case (Inr v)
    with cell_absBoard [of C fr fc]
    have c: "cell (absBoard C) fr fc = Inr (absVal v)" by (simp add: absBoard_strip)
    with assms obtain q where q: "absVal v = Some q"
      by (cases "absVal v") (auto simp: mv clone)
    note a = absVal_Some [OF q]
    define cond where "cond \<longleftrightarrow> ptype q = King \<and> \<bar>tc - fc\<bar> = 2"
    define B1 where "B1 = (if cond then castleRook (absBoard C) fr (tc > fc) else Inr (absBoard C))"
    define C2 where "C2 = (if cond then castleRookC ?C1 fr (tc > fc) else Inr ?C1)"
    have fun_eq: "applyMove (absBoard C) mv pr =
        (case B1 of Inl e \<Rightarrow> Inl e
         | Inr nb1 \<Rightarrow> (case setCell nb1 tr tc (Some (movedPiece q tr pr)) of
                         Inl e \<Rightarrow> Inl e | Inr nb2 \<Rightarrow> setCell nb2 fr fc None))"
      by (simp add: mv clone c q B1_def cond_def Let_def)
    have val_eq: "applyMoveC C mv pr =
        (case C2 of Inl e \<Rightarrow> Inl e
         | Inr nb1 \<Rightarrow> (case writeB CUndefined nb1 tr tc (CObj (movedObj (spreadC v) tr pr)) of
                         Inl e \<Rightarrow> Inl e | Inr nb2 \<Rightarrow> writeB CUndefined nb2 fr fc CNull))"
      by (simp add: mv strip Inr C2_def cond_def a(1) Let_def)
    have "B1 \<noteq> Inl NotAPiece" using assms unfolding fun_eq by (cases B1) auto
    then have B1: "map_sum id absBoard C2 = B1"
      using castleRookC_castleRook [of C fr "tc > fc"]
      by (auto simp: B1_def C2_def absBoard_strip)
    show ?thesis
    proof (cases C2)
      case (Inl e)
      with B1 show ?thesis unfolding fun_eq val_eq by auto
    next
      case c2: (Inr nb1)
      with B1 have b1: "B1 = Inr (absBoard nb1)" by auto
      let ?pf = "CObj (movedObj (spreadC v) tr pr)"
      from setCell_absBoard [of nb1 tr tc ?pf]
      have w1: "setCell (absBoard nb1) tr tc (Some (movedPiece q tr pr))
          = map_sum id absBoard (writeB CUndefined nb1 tr tc ?pf)"
        by (simp add: a(3))
      show ?thesis
      proof (cases "writeB CUndefined nb1 tr tc ?pf")
        case (Inl e)
        with w1 show ?thesis unfolding fun_eq val_eq b1 c2 by simp
      next
        case w: (Inr nb2)
        from setCell_absBoard [of nb2 fr fc CNull]
        have "setCell (absBoard nb2) fr fc None
            = map_sum id absBoard (writeB CUndefined nb2 fr fc CNull)"
          by (simp add: absVal_simps)
        with w1 w show ?thesis unfolding fun_eq val_eq b1 c2 by simp
      qed
    qed
  qed
qed

lemma applyMoveH_applyMove:
  assumes "wfBoard h b" "applyMoveH h b mv pr = (h', res)"
    and "applyMove (absBoard (content h b)) mv pr \<noteq> Inl NotAPiece"
  shows "map_sum id (\<lambda>n. absBoard (content h' n)) res = applyMove (absBoard (content h b)) mv pr"
proof -
  have "map_sum id (\<lambda>n. absBoard (content h' n)) res
      = map_sum id absBoard (map_sum id (content h') res)"
    by (cases res) simp_all
  then show ?thesis
    unfolding applyMoveH_content [OF assms(1,2)] applyMoveC_applyMove [OF assms(3)] .
qed

section \<open>Claims\<close>

text \<open>
  C5. At depth 0 \<^verbatim>\<open>minimax\<close> returns the material score of
  \<^verbatim>\<open>evaluateBoard\<close>. At a positive depth, when the side to move (black at
  a maximizing layer, white at a minimizing one) has no legal move, it
  returns -9999 at a maximizing layer and 9999 at a minimizing layer if
  that side is in check, and 0 if it is not.
\<close>

theorem minimax_leaf_and_no_moves:
  "length board = 8 \<Longrightarrow>
   (\<exists>score. evaluateBoard board = Inr score
      \<and> minimax board 0 alpha beta isMaximizing = Inr (Fin score)) \<and>
   (getAllMoves board (if isMaximizing then Black else White) = Inr [] \<longrightarrow>
      (\<exists>inCheck. isInCheck board (if isMaximizing then Black else White) = Inr inCheck
         \<and> minimax board (Suc d) alpha beta isMaximizing =
             Inr (Fin (if inCheck then (if isMaximizing then - 9999 else 9999) else 0))))"
proof (intro conjI impI)
  assume len: "length board = 8"
  from evaluateBoard_total [OF len] show
    "\<exists>score. evaluateBoard board = Inr score
       \<and> minimax board 0 alpha beta isMaximizing = Inr (Fin score)"
    by auto
next
  assume len: "length board = 8"
    and none: "getAllMoves board (if isMaximizing then Black else White) = Inr []"
  obtain inCheck where "isInCheck board (if isMaximizing then Black else White) = Inr inCheck"
    using isInCheck_total [OF len] by blast
  with none show "\<exists>inCheck. isInCheck board (if isMaximizing then Black else White) = Inr inCheck
         \<and> minimax board (Suc d) alpha beta isMaximizing =
             Inr (Fin (if inCheck then (if isMaximizing then - 9999 else 9999) else 0))"
    by (simp add: Let_def)
qed

theorem minimax_leaf_and_no_moves_witness:
  "length mateBoard = 8 \<and> getAllMoves mateBoard Black = Inr []
   \<and> minimax mateBoard 0 NegInf PosInf True = Inr (Fin (- 90))
   \<and> minimax mateBoard 1 NegInf PosInf True = Inr (Fin (- 9999))
   \<and> length staleBoard = 8 \<and> getAllMoves staleBoard White = Inr []
   \<and> minimax staleBoard 1 NegInf PosInf False = Inr (Fin 0)"
proof -
  have l1: "length mateBoard = 8" by (simp add: mateBoard_def)
  have g1: "getAllMoves mateBoard Black = Inr []" by code_simp
  have c1: "isInCheck mateBoard Black = Inr True" by code_simp
  have e1: "evaluateBoard mateBoard = Inr (- 90)" by code_simp
  have l2: "length staleBoard = 8" by (simp add: staleBoard_def)
  have g2: "getAllMoves staleBoard White = Inr []" by code_simp
  have c2: "isInCheck staleBoard White = Inr False" by code_simp
  from minimax_leaf_and_no_moves [OF l1, of NegInf PosInf True 0] g1 c1 e1
  have "minimax mateBoard 0 NegInf PosInf True = Inr (Fin (- 90))"
    "minimax mateBoard 1 NegInf PosInf True = Inr (Fin (- 9999))" by auto
  moreover from minimax_leaf_and_no_moves [OF l2, of NegInf PosInf False 0] g2 c2
  have "minimax staleBoard 1 NegInf PosInf False = Inr (Fin 0)" by auto
  ultimately show ?thesis using l1 g1 l2 g2 by simp
qed




text \<open>
  C2. A white pawn moves from a7 to a8 with no promotion type given.
  \<^verbatim>\<open>applyMove\<close> puts a queen on a8; \<^verbatim>\<open>getSan\<close>, called the same way,
  gives \<^verbatim>\<open>a8\<close>, with no \<^verbatim>\<open>=Q\<close>.
\<close>

theorem default_promotion_san_has_no_suffix:
  "isValidMove promoBoard (1, 0) (0, 0) White True = Inr True
   \<and> (case applyMove promoBoard ((1, 0), (0, 0)) None of
        Inl e \<Rightarrow> Inl e
      | Inr nb \<Rightarrow> (case getSan promoBoard nb ((1, 0), (0, 0)) None of
          Inl e \<Rightarrow> Inl e
        | Inr san \<Rightarrow> Inr (sq nb 0 0, san)))
     = Inr (Some \<lparr>ptype = Queen, color = White, hasMoved = True\<rparr>, ''a8'')"
  by code_simp

text \<open>
  C3. On every board of eight rows and for either colour, \<^verbatim>\<open>getAllMoves\<close>
  returns a list, and applying any move of the list with \<^verbatim>\<open>applyMove\<close>
  gives a board on which \<^verbatim>\<open>isInCheck\<close> of the mover's colour is false.
\<close>

theorem getAllMoves_leaves_king_safe:
  "length board = 8 \<Longrightarrow>
   \<exists>moves. getAllMoves board col = Inr moves
     \<and> (\<forall>mv \<in> set moves. \<exists>nb. applyMove board mv None = Inr nb \<and> isInCheck nb col = Inr False)"
proof -
  assume len: "length board = 8"
  obtain moves where moves: "getAllMoves board col = Inr moves"
    using getAllMoves_total [OF len] by blast
  have "\<exists>nb. applyMove board mv None = Inr nb \<and> isInCheck nb col = Inr False"
    if "mv \<in> set moves" for mv
    using isValidMove_safe [of board "fst mv" "snd mv" col] getAllMoves_member [OF moves that]
    by simp
  with moves show ?thesis by blast
qed

theorem getAllMoves_leaves_king_safe_witness:
  "length getInitialBoard = 8
   \<and> (\<exists>moves. getAllMoves getInitialBoard White = Inr moves \<and> ((6, 4), (4, 4)) \<in> set moves)
   \<and> (\<exists>nb. applyMove getInitialBoard ((6, 4), (4, 4)) None = Inr nb
          \<and> isInCheck nb White = Inr False)"
proof -
  have len: "length getInitialBoard = 8" by (simp add: getInitialBoard_def)
  from getAllMoves_leaves_king_safe [OF len, of White]
  obtain moves where m: "getAllMoves getInitialBoard White = Inr moves"
    and s: "\<forall>mv \<in> set moves. \<exists>nb. applyMove getInitialBoard mv None = Inr nb
              \<and> isInCheck nb White = Inr False" by blast
  have "getAllMoves getInitialBoard White = Inr
     [((6, 0), 4, 0), ((6, 0), 5, 0), ((6, 1), 4, 1), ((6, 1), 5, 1),
      ((6, 2), 4, 2), ((6, 2), 5, 2), ((6, 3), 4, 3), ((6, 3), 5, 3),
      ((6, 4), 4, 4), ((6, 4), 5, 4), ((6, 5), 4, 5), ((6, 5), 5, 5),
      ((6, 6), 4, 6), ((6, 6), 5, 6), ((6, 7), 4, 7), ((6, 7), 5, 7),
      ((7, 1), 5, 0), ((7, 1), 5, 2), ((7, 6), 5, 5), ((7, 6), 5, 7)]"
    by code_simp
  with m have mem: "((6, 4), (4, 4)) \<in> set moves" by auto
  with s have "\<exists>nb. applyMove getInitialBoard ((6, 4), (4, 4)) None = Inr nb
          \<and> isInCheck nb White = Inr False" by blast
  with len m mem show ?thesis by blast
qed

text \<open>
  C4. On a board of eight rows, with any depth of at least 1 and whatever
  order the shuffle leaves the moves in, \<^verbatim>\<open>getBestMove\<close> returns none
  exactly when \<^verbatim>\<open>getAllMoves\<close> for black is empty, and otherwise returns
  a move of that list.
\<close>

theorem getBestMove_none_iff_no_moves:
  "length board = 8 \<Longrightarrow> (\<forall>ms. mset (shuffle ms) = mset ms) \<Longrightarrow> 1 \<le> depth \<Longrightarrow>
   \<exists>moves. getAllMoves board Black = Inr moves
     \<and> (getBestMove shuffle board depth = Inr None \<longleftrightarrow> moves = [])
     \<and> (moves \<noteq> [] \<longrightarrow> (\<exists>mv \<in> set moves. getBestMove shuffle board depth = Inr (Some mv)))"
proof -
  assume len: "length board = 8" and perm: "\<forall>ms. mset (shuffle ms) = mset ms"
    and depth: "1 \<le> depth"
  obtain moves where moves: "getAllMoves board Black = Inr moves"
    using getAllMoves_total [OF len] by blast
  obtain d where d: "depth = Suc d" using depth by (cases depth) auto
  have set_eq: "set (shuffle moves) = set moves"
    using perm mset_eq_setD by blast
  have app: "\<forall>mv \<in> set (shuffle moves). \<exists>nb. applyMove board mv None = Inr nb"
    using getAllMoves_apply [OF moves] set_eq by blast
  from bestLoop_result [OF len app, where maxVal = NegInf and bestMove = None
      and d = d and alpha = NegInf]
  obtain res where res: "bestLoop board d (shuffle moves) None NegInf NegInf = Inr res"
    "res = None \<or> (\<exists>mv \<in> set (shuffle moves). res = Some mv)"
    "shuffle moves \<noteq> [] \<longrightarrow> res \<noteq> None" by auto
  have ne: "shuffle moves \<noteq> []" if "moves \<noteq> []"
    using that set_eq by (metis set_empty)
  have gb: "getBestMove shuffle board depth = (if moves = [] then Inr None else Inr res)"
    using moves res(1) d by (simp add: getBestMove_def)
  show ?thesis
  proof (cases "moves = []")
    case True
    with gb moves show ?thesis by simp
  next
    case False
    with ne res set_eq obtain mv where "mv \<in> set moves" "res = Some mv" by auto
    with gb moves False show ?thesis by auto
  qed
qed

theorem getBestMove_none_iff_no_moves_witness:
  "length mateBoard = 8 \<and> getAllMoves mateBoard Black = Inr []
   \<and> getBestMove rev mateBoard 1 = Inr None
   \<and> length staleBoard = 8
   \<and> (\<exists>moves mv. getAllMoves staleBoard Black = Inr moves \<and> mv \<in> set moves
         \<and> getBestMove rev staleBoard 2 = Inr (Some mv))"
proof -
  have perm: "\<forall>ms::move list. mset (rev ms) = mset ms" by simp
  have l1: "length mateBoard = 8" by (simp add: mateBoard_def)
  have l2: "length staleBoard = 8" by (simp add: staleBoard_def)
  have g1: "getAllMoves mateBoard Black = Inr []" by code_simp
  have g2: "getAllMoves staleBoard Black = Inr
    [((0, 7), 0, 6), ((0, 7), 1, 6), ((0, 7), 1, 7), ((5, 1), 0, 1),
     ((5, 1), 0, 6), ((5, 1), 1, 1), ((5, 1), 1, 5), ((5, 1), 2, 1),
     ((5, 1), 2, 4), ((5, 1), 3, 1), ((5, 1), 3, 3), ((5, 1), 4, 0),
     ((5, 1), 4, 1), ((5, 1), 4, 2), ((5, 1), 5, 0), ((5, 1), 5, 2),
     ((5, 1), 5, 3), ((5, 1), 5, 4), ((5, 1), 5, 5), ((5, 1), 5, 6),
     ((5, 1), 5, 7), ((5, 1), 6, 0), ((5, 1), 6, 1), ((5, 1), 6, 2),
     ((5, 1), 7, 1), ((5, 1), 7, 3)]" by code_simp
  from getBestMove_none_iff_no_moves [OF l1 perm, of 1] g1
  have n: "getBestMove rev mateBoard 1 = Inr None" by auto
  from getBestMove_none_iff_no_moves [OF l2 perm, of 2] g2
  have "\<exists>moves mv. getAllMoves staleBoard Black = Inr moves \<and> mv \<in> set moves
         \<and> getBestMove rev staleBoard 2 = Inr (Some mv)"
    by (auto simp del: set_simps)
  with l1 l2 g1 n show ?thesis by blast
qed

subsection \<open>C6: what a castling move requires\<close>

text \<open>
  C6, as stated for every board, fails. The castling branch tests the king's own square
  through \<^verbatim>\<open>isInCheck(board, turn)\<close>, which looks for one king of the colour (the first
  king of the last row that has one), not at \<^verbatim>\<open>from\<close>. On \<^term>\<open>twoKingsBoard\<close> the
  unmoved white king on e1 is attacked by the black rook on e8, the king that
  \<^verbatim>\<open>isInCheck\<close> finds is the one on a1, and the move e1 to g1 is accepted: the king
  castles out of check.
\<close>

theorem castling_out_of_check_with_two_kings:
  "sq twoKingsBoard 7 4 = Some \<lparr>ptype = King, color = White, hasMoved = False\<rparr>
   \<and> isValidMove twoKingsBoard (7, 4) (7, 6) White True = Inr True
   \<and> isSquareUnderAttack twoKingsBoard (7, 4) Black = Inr True"
  by code_simp

text \<open>
  C6 on a board of eight rows where the moving king is the only king of the colour to move
  on the squares of rows and columns 0..7: when \<^verbatim>\<open>isValidMove\<close> with
  \<^verbatim>\<open>checkSafety\<close> true accepts a move of a king by two columns, the king has not moved,
  the move stays on the king's row, the corner square on the side of the move (column 7
  or column 0) holds a rook of the king's colour that has not moved, every square strictly
  between king and rook is empty, and none of the king's square, the transit square and the
  destination square is attacked by the opponent on the board before the move.
\<close>

theorem castling_requirements:
  "length board = 8 \<Longrightarrow> sq board fr fc = Some k \<Longrightarrow> ptype k = King \<Longrightarrow> \<bar>tc - fc\<bar> = 2 \<Longrightarrow>
   (\<forall>r \<in> {0..7}. \<forall>c \<in> {0..7}. isPiece (sq board r c) turn King \<longrightarrow> r = fr \<and> c = fc) \<Longrightarrow>
   isValidMove board (fr, fc) (tr, tc) turn True = Inr True \<Longrightarrow>
   \<not> hasMoved k \<and> tr = fr
   \<and> (\<exists>rk. sq board fr (if tc > fc then 7 else 0) = Some rk
          \<and> ptype rk = Rook \<and> color rk = color k \<and> \<not> hasMoved rk)
   \<and> (\<forall>c. (fc < c \<and> c < (if tc > fc then 7 else 0)) \<or> ((if tc > fc then 7 else 0) < c \<and> c < fc)
          \<longrightarrow> sq board fr c = None)
   \<and> isSquareUnderAttack board (fr, fc) (opponentOf turn) = Inr False
   \<and> isSquareUnderAttack board (fr, fc + (if tc > fc then 1 else - 1)) (opponentOf turn) = Inr False
   \<and> isSquareUnderAttack board (tr, tc) (opponentOf turn) = Inr False"
proof -
  assume len: "length board = 8" and k: "sq board fr fc = Some k" "ptype k = King"
    and two: "\<bar>tc - fc\<bar> = 2"
    and uniq: "\<forall>r \<in> {0..7}. \<forall>c \<in> {0..7}. isPiece (sq board r c) turn King \<longrightarrow> r = fr \<and> c = fc"
    and valid: "isValidMove board (fr, fc) (tr, tc) turn True = Inr True"
  define rc :: int where "rc = (if tc > fc then 7 else 0)"
  let ?opp = "opponentOf turn"
  from isValidMove_True [OF valid] obtain p target where
    p: "cell board fr fc = Inr (Some p)" "color p = turn"
    and t: "cell board tr tc = Inr target" "\<forall>t. target = Some t \<longrightarrow> color t \<noteq> turn"
    and pg: "pieceGeometry board p (fr, fc) (tr, tc) target turn True = Inr True"
    by auto
  from cell_Inr_sq [OF p(1)] k have pk: "p = k" by simp
  from p(1) len have fr: "0 \<le> fr" "fr < 8" using cell_Inr_iff [of board fr fc] by auto
  from pieceGeometry_castling [OF pg] k(2) two pk
  have cg: "castlingGeometry board (fr, fc) (tr, tc) turn True = Inr True"
    and nm: "\<not> hasMoved k" and row: "tr = fr" by auto
  from castlingGeometry_rook [OF cg] obtain rk where
    rk0: "cell board fr rc = Inr (Some rk)"
    and rk: "ptype rk = Rook" "color rk = turn" "\<not> hasMoved rk" by (auto simp: rc_def)
  from cell_Inr_sq [OF rk0] have sqrk: "sq board fr rc = Some rk" .
  from castlingGeometry_True [OF cg]
  have ic: "isInCheck board turn = Inr False"
    and pc: "isPathClear board (fr, fc) (fr, rc) = Inr True"
    and mid: "isSquareUnderAttack board (fr, fc + (if tc > fc then 1 else - 1)) ?opp = Inr False"
    by (auto simp: rc_def)
  have between: "sq board fr c = None"
    if "(fc < c \<and> c < rc) \<or> (rc < c \<and> c < fc)" for c
    using isPathClear_row [OF len fr pc that] .
  \<comment> \<open>the king's own square\<close>
  from isInCheck_False [OF len ic] obtain k0 where
    k0: "fst k0 \<in> {0..7}" "snd k0 \<in> {0..7}" "isPiece (sq board (fst k0) (snd k0)) turn King"
    and a0: "isSquareUnderAttack board k0 ?opp = Inr False" by blast
  from uniq k0 have "fst k0 = fr \<and> snd k0 = fc" by blast
  then have k0eq: "k0 = (fr, fc)" by (cases k0) simp
  with k0 have fc: "0 \<le> fc" "fc \<le> 7" by auto
  from a0 k0eq have cur: "isSquareUnderAttack board (fr, fc) ?opp = Inr False" by simp
  \<comment> \<open>the board after the move\<close>
  from isValidMove_safe [OF valid] obtain nb where
    nb: "applyMove board ((fr, fc), (tr, tc)) None = Inr nb"
    and ic': "isInCheck nb turn = Inr False" by blast
  have lnb: "length nb = 8" using applyMove_length [OF nb] len by simp
  have cast: "ptype k = King \<and> \<bar>tc - fc\<bar> = 2" using k(2) two by simp
  have rf: "rookFromCol (tc > fc) = rc" by (simp add: rookFromCol_def rc_def)
  from applyMove_sq [OF nb] k(1) obtain form: "\<And>r c. sq nb r c =
       (if r = fr \<and> c = fc then None
        else if r = tr \<and> c = tc \<and> 0 \<le> tc then Some (movedPiece k tr None)
        else if ptype k = King \<and> \<bar>tc - fc\<bar> = 2
        then (if r = fr \<and> c = rookFromCol (tc > fc) then None
              else if r = fr \<and> c = rookToCol (tc > fc)
              then map_option (\<lambda>rk. rk\<lparr>hasMoved := True\<rparr>) (sq board fr (rookFromCol (tc > fc)))
              else sq board r c)
        else sq board r c)"
    by auto
  have after: "sq nb r c =
       (if r = fr \<and> c = fc then None
        else if r = fr \<and> c = tc \<and> 0 \<le> tc then Some (movedPiece k fr None)
        else if r = fr \<and> c = rc then None
        else if r = fr \<and> c = rookToCol (tc > fc) then Some (rk\<lparr>hasMoved := True\<rparr>)
        else sq board r c)" for r c
  proof -
    have mo: "map_option (\<lambda>rk. rk\<lparr>hasMoved := True\<rparr>) (sq board fr rc)
        = Some (rk\<lparr>hasMoved := True\<rparr>)" by (simp add: sqrk)
    have c: "(ptype k = King \<and> \<bar>tc - fc\<bar> = 2) = True" using cast by simp
    show ?thesis
      by (simp only: form [of r c] mo rf row c if_True)
  qed
  from isInCheck_False [OF lnb ic'] obtain k1 where
    k1: "fst k1 \<in> {0..7}" "snd k1 \<in> {0..7}" "isPiece (sq nb (fst k1) (snd k1)) turn King"
    and a1: "isSquareUnderAttack nb k1 ?opp = Inr False" by blast
  have "fst k1 = fr \<and> snd k1 = tc"
  proof (rule ccontr)
    assume other: "\<not> (fst k1 = fr \<and> snd k1 = tc)"
    with k1(3) have "isPiece (sq board (fst k1) (snd k1)) turn King
        \<and> \<not> (fst k1 = fr \<and> snd k1 = fc)"
      using rk(1) by (auto simp: after isPiece_def split: if_splits)
    with uniq k1(1,2) show False by blast
  qed
  then have k1eq: "k1 = (fr, tc)" by (cases k1) simp
  with k1 have tc: "0 \<le> tc" "tc \<le> 7" by auto
  from a1 k1eq have dest': "isSquareUnderAttack nb (fr, tc) ?opp = Inr False" by simp
  \<comment> \<open>the destination is not the rook's corner\<close>
  have tcr: "tc \<noteq> rc"
  proof
    assume "tc = rc"
    with sqrk cell_Inr_sq [OF t(1)] row have "target = Some rk" by simp
    with t(2) rk(2) show False by simp
  qed
  have own: "sq board fr c = None \<or> (\<exists>q. sq board fr c = Some q \<and> color q = turn)"
    if seg: "(fc \<le> c \<and> c \<le> rc) \<or> (rc \<le> c \<and> c \<le> fc)" for c
  proof -
    consider "c = fc" | "c = rc"
      | "(fc < c \<and> c < rc) \<or> (rc < c \<and> c < fc)"
      using seg by arith
    then show ?thesis
    proof cases
      case 1
      with k(1) p(2) pk show ?thesis by simp
    next
      case 2
      with sqrk rk(2) show ?thesis by simp
    next
      case 3
      from between [OF this] show ?thesis by simp
    qed
  qed
  have own': "sq nb fr c = None \<or> (\<exists>q. sq nb fr c = Some q \<and> color q = turn)"
    if "(fc \<le> c \<and> c \<le> rc) \<or> (rc \<le> c \<and> c \<le> fc)" for c
    using own [OF that] rk(2) p(2) pk k(2)
    by (auto simp: after movedPiece_def Let_def)
  have agree: "sq nb r c = sq board r c" if "r \<noteq> fr" for r c
    using that by (simp add: after)
  have beside: "\<not> isPiece (sq nb fr x) ?opp King \<and> \<not> isPiece (sq board fr x) ?opp King"
    if "x \<noteq> tc" "\<bar>x - tc\<bar> \<le> 1" for x
  proof -
    from that two tc tcr fc
    have seg: "(fc \<le> x \<and> x \<le> rc) \<or> (rc \<le> x \<and> x \<le> fc)"
      by (auto simp: rc_def split: if_splits)
    from isPiece_other_color [OF own [OF seg]] isPiece_other_color [OF own' [OF seg]]
    show ?thesis by simp
  qed
  have left: "\<exists>n q. (\<forall>j<n. sq board fr (tc - 1 + int j * (- 1)) = None)
                 \<and> sq board fr (tc - 1 + int n * (- 1)) = Some q \<and> color q \<noteq> ?opp"
  proof (cases "tc > fc")
    case True
    with two have tcfc: "tc = fc + 2" by linarith
    have "\<forall>j<1::nat. sq board fr (tc - 1 + int j * (- 1)) = None"
      using between [of "fc + 1"] tcfc tc tcr by (auto simp: rc_def ac_simps)
    moreover have "sq board fr (tc - 1 + int 1 * (- 1)) = Some k"
      using k(1) tcfc by simp
    moreover have "color k \<noteq> ?opp" using p(2) pk opponentOf_neq [of turn] by auto
    ultimately show ?thesis by blast
  next
    case False
    with two have tcfc: "tc = fc - 2" by linarith
    have "\<forall>j<nat (tc - 1). sq board fr (tc - 1 + int j * (- 1)) = None"
    proof (intro allI impI)
      fix j assume "j < nat (tc - 1)"
      with tcfc False have "0 < tc - 1 - int j \<and> tc - 1 - int j < fc" by auto
      with between [of "tc - 1 - int j"] False show "sq board fr (tc - 1 + int j * (- 1)) = None"
        by (simp add: rc_def)
    qed
    moreover have "sq board fr (tc - 1 + int (nat (tc - 1)) * (- 1)) = Some rk"
      using sqrk False tc tcr by (simp add: rc_def)
    moreover have "color rk \<noteq> ?opp" using rk(2) opponentOf_neq [of turn] by auto
    ultimately show ?thesis by blast
  qed
  have right: "\<exists>n q. (\<forall>j<n. sq board fr (tc + 1 + int j * 1) = None)
                 \<and> sq board fr (tc + 1 + int n * 1) = Some q \<and> color q \<noteq> ?opp"
  proof (cases "tc > fc")
    case False
    with two have tcfc: "tc = fc - 2" by linarith
    have "\<forall>j<1::nat. sq board fr (tc + 1 + int j * 1) = None"
      using between [of "fc - 1"] tcfc tc tcr False by (auto simp: rc_def ac_simps)
    moreover have "sq board fr (tc + 1 + int 1 * 1) = Some k"
      using k(1) tcfc by simp
    moreover have "color k \<noteq> ?opp" using p(2) pk opponentOf_neq [of turn] by auto
    ultimately show ?thesis by blast
  next
    case True
    with two have tcfc: "tc = fc + 2" by linarith
    have "\<forall>j<nat (6 - tc). sq board fr (tc + 1 + int j * 1) = None"
    proof (intro allI impI)
      fix j assume "j < nat (6 - tc)"
      with tcfc True have "fc < tc + 1 + int j \<and> tc + 1 + int j < 7" by auto
      with between [of "tc + 1 + int j"] True show "sq board fr (tc + 1 + int j * 1) = None"
        by (simp add: rc_def)
    qed
    moreover have "sq board fr (tc + 1 + int (nat (6 - tc)) * 1) = Some rk"
      using sqrk True tc tcr by (simp add: rc_def)
    moreover have "color rk \<noteq> ?opp" using rk(2) opponentOf_neq [of turn] by auto
    ultimately show ?thesis by blast
  qed
  have dest: "isSquareUnderAttack board (fr, tc) ?opp = Inr False"
    using square_safe_before_castling [OF len lnb fr agree beside left right dest'] .
  from sqrk rk p(2) pk
  have rook: "\<exists>rk. sq board fr (if tc > fc then 7 else 0) = Some rk
          \<and> ptype rk = Rook \<and> color rk = color k \<and> \<not> hasMoved rk"
    by (auto simp: rc_def)
  have empty: "\<forall>c. (fc < c \<and> c < (if tc > fc then 7 else 0))
          \<or> ((if tc > fc then 7 else 0) < c \<and> c < fc) \<longrightarrow> sq board fr c = None"
    using between unfolding rc_def by blast
  from nm row rook empty cur mid dest show ?thesis
    by (simp only: simp_thms)
qed

text \<open>The theorem at the white king's castling to g1 on \<^term>\<open>castleBoard\<close>.\<close>

theorem castling_requirements_witness:
  "length castleBoard = 8
   \<and> sq castleBoard 7 4 = Some \<lparr>ptype = King, color = White, hasMoved = False\<rparr>
   \<and> isValidMove castleBoard (7, 4) (7, 6) White True = Inr True
   \<and> sq castleBoard 7 5 = None \<and> sq castleBoard 7 6 = None
   \<and> isSquareUnderAttack castleBoard (7, 4) Black = Inr False
   \<and> isSquareUnderAttack castleBoard (7, 5) Black = Inr False
   \<and> isSquareUnderAttack castleBoard (7, 6) Black = Inr False"
proof -
  have len: "length castleBoard = 8" by (simp add: castleBoard_def)
  have k: "sq castleBoard 7 4 = Some \<lparr>ptype = King, color = White, hasMoved = False\<rparr>"
    by code_simp
  have one: "\<forall>r \<in> {0..7}. \<forall>c \<in> {0..7}.
      isPiece (sq castleBoard r c) White King \<longrightarrow> r = 7 \<and> c = 4"
    unfolding ball_upto_0_7 by code_simp
  have v: "isValidMove castleBoard (7, 4) (7, 6) White True = Inr True" by code_simp
  from castling_requirements [OF len k _ _ one v]
  have "(\<forall>c. (4 < c \<and> c < 7) \<longrightarrow> sq castleBoard 7 c = None)
    \<and> isSquareUnderAttack castleBoard (7, 4) Black = Inr False
    \<and> isSquareUnderAttack castleBoard (7, 5) Black = Inr False
    \<and> isSquareUnderAttack castleBoard (7, 6) Black = Inr False"
    by (simp add: opponentOf_def)
  then have "sq castleBoard 7 5 = None \<and> sq castleBoard 7 6 = None
    \<and> isSquareUnderAttack castleBoard (7, 4) Black = Inr False
    \<and> isSquareUnderAttack castleBoard (7, 5) Black = Inr False
    \<and> isSquareUnderAttack castleBoard (7, 6) Black = Inr False"
    by simp
  with len k v show ?thesis by simp
qed

text \<open>
  C7. The notation of a castling move is not always \<^verbatim>\<open>O-O\<close>: when the
  move gives check, \<^verbatim>\<open>getSan\<close> appends \<^verbatim>\<open>+\<close> (or \<^verbatim>\<open>#\<close>). Here the rook
  arrives on f1 and checks the king on f8.
\<close>

theorem castling_san_with_check:
  "isValidMove castleCheckBoard (7, 4) (7, 6) White True = Inr True
   \<and> (case applyMove castleCheckBoard ((7, 4), (7, 6)) None of
        Inl e \<Rightarrow> Inl e
      | Inr nb \<Rightarrow> getSan castleCheckBoard nb ((7, 4), (7, 6)) None) = Inr ''O-O+''"
  by code_simp

text \<open>
  C7, as the code has it. With a king on column 4 of a row and a piece on
  column 7 of that row, \<^verbatim>\<open>applyMove\<close> of the king to column 6 puts the
  king on column 6 and that piece on column 5, both marked as moved, and
  empties columns 4 and 7; towards column 2 it takes the piece on column
  0 to column 3. \<^verbatim>\<open>getSan\<close> gives \<^verbatim>\<open>O-O\<close> (queenside \<^verbatim>\<open>O-O-O\<close>) when the
  opponent is not in check afterwards, and the same followed by \<^verbatim>\<open>+\<close> or
  \<^verbatim>\<open>#\<close> when it is.
\<close>

theorem castling_moves_king_and_rook:
  "length board = 8 \<Longrightarrow> row \<in> {0..7} \<Longrightarrow>
   sq board row 4 = Some k \<Longrightarrow> ptype k = King \<Longrightarrow>
   sq board row (if kingSide then 7 else 0) = Some rk \<Longrightarrow>
   \<exists>nb. applyMove board ((row, 4), (row, if kingSide then 6 else 2)) promoteTo = Inr nb
     \<and> sq nb row (if kingSide then 6 else 2) = Some (k\<lparr>hasMoved := True\<rparr>)
     \<and> sq nb row (if kingSide then 5 else 3) = Some (rk\<lparr>hasMoved := True\<rparr>)
     \<and> sq nb row 4 = None
     \<and> sq nb row (if kingSide then 7 else 0) = None
     \<and> (\<exists>inCheck. isInCheck nb (opponentOf (color k)) = Inr inCheck
          \<and> (\<not> inCheck \<longrightarrow>
                getSan board nb ((row, 4), (row, if kingSide then 6 else 2)) promoteTo
                  = Inr (if kingSide then ''O-O'' else ''O-O-O''))
          \<and> (inCheck \<longrightarrow>
                getSan board nb ((row, 4), (row, if kingSide then 6 else 2)) promoteTo
                  = Inr ((if kingSide then ''O-O'' else ''O-O-O'') @ ''+'')
              \<or> getSan board nb ((row, 4), (row, if kingSide then 6 else 2)) promoteTo
                  = Inr ((if kingSide then ''O-O'' else ''O-O-O'') @ ''#'')))"
proof -
  assume len: "length board = 8" and row: "row \<in> {0..7}"
    and k: "sq board row 4 = Some k" "ptype k = King"
    and rk: "sq board row (if kingSide then 7 else 0) = Some rk"
  let ?tc = "if kingSide then 6 else 2 :: int"
  from row have r: "0 \<le> row" "row < 8" by simp_all
  have ck: "cell board row 4 = Inr (Some k)" using cell_sq [OF len r, of 4] k by simp
  have crk: "cell board row (if kingSide then 7 else 0) = Inr (Some rk)"
    using cell_sq [OF len r, of "if kingSide then 7 else 0"] rk by simp
  have "\<exists>nb. applyMove board ((row, 4), (row, ?tc)) promoteTo = Inr nb \<and> length nb = length board"
    using ck crk r len by (intro applyMove_Inr [of board _ k]) auto
  then obtain nb where nb: "applyMove board ((row, 4), (row, ?tc)) promoteTo = Inr nb"
    and lnb: "length nb = 8" using len by auto
  from applyMove_sq [OF nb] k have board':
    "\<And>r c. sq nb r c =
       (if r = row \<and> c = 4 then None
        else if r = row \<and> c = ?tc \<and> 0 \<le> ?tc then Some (movedPiece k row promoteTo)
        else if ptype k = King \<and> \<bar>?tc - 4\<bar> = 2
        then (if r = row \<and> c = rookFromCol (?tc > 4) then None
              else if r = row \<and> c = rookToCol (?tc > 4)
              then map_option (\<lambda>rk. rk\<lparr>hasMoved := True\<rparr>) (sq board row (rookFromCol (?tc > 4)))
              else sq board r c)
        else sq board r c)" by auto
  have mp: "movedPiece k row promoteTo = k\<lparr>hasMoved := True\<rparr>"
    using k(2) by (simp add: movedPiece_def Let_def)
  have squares: "sq nb row ?tc = Some (k\<lparr>hasMoved := True\<rparr>)"
    "sq nb row (if kingSide then 5 else 3) = Some (rk\<lparr>hasMoved := True\<rparr>)"
    "sq nb row 4 = None" "sq nb row (if kingSide then 7 else 0) = None"
    using k(2) rk by (auto simp: board' mp rookFromCol_def rookToCol_def split: if_splits)
  from checkSuffix_cases [OF lnb, of "opponentOf (color k)"] obtain inCheck where
    ic: "isInCheck nb (opponentOf (color k)) = Inr inCheck"
    and s0: "\<not> inCheck \<longrightarrow> checkSuffix nb (opponentOf (color k)) = Inr []"
    and s1: "inCheck \<longrightarrow> checkSuffix nb (opponentOf (color k)) = Inr ''+''
                \<or> checkSuffix nb (opponentOf (color k)) = Inr ''#''" by blast
  have san: "getSan board nb ((row, 4), (row, ?tc)) promoteTo =
      (case checkSuffix nb (opponentOf (color k)) of
         Inl e \<Rightarrow> Inl e
       | Inr suffix \<Rightarrow> Inr ((if kingSide then ''O-O'' else ''O-O-O'') @ suffix))"
    using ck k(2) by (simp add: getSan_def Let_def)
  have "(\<not> inCheck \<longrightarrow> getSan board nb ((row, 4), (row, ?tc)) promoteTo
                  = Inr (if kingSide then ''O-O'' else ''O-O-O''))
      \<and> (inCheck \<longrightarrow> getSan board nb ((row, 4), (row, ?tc)) promoteTo
                  = Inr ((if kingSide then ''O-O'' else ''O-O-O'') @ ''+'')
              \<or> getSan board nb ((row, 4), (row, ?tc)) promoteTo
                  = Inr ((if kingSide then ''O-O'' else ''O-O-O'') @ ''#''))"
    using s0 s1 unfolding san by auto
  with nb squares ic show ?thesis by blast
qed

theorem castling_moves_king_and_rook_witness:
  "length castleBoard = 8 \<and> sq castleBoard 7 4 = mk King White
   \<and> sq castleBoard 7 7 = mk Rook White
   \<and> (\<exists>nb. applyMove castleBoard ((7, 4), (7, 6)) None = Inr nb
        \<and> sq nb 7 6 = Some \<lparr>ptype = King, color = White, hasMoved = True\<rparr>
        \<and> sq nb 7 5 = Some \<lparr>ptype = Rook, color = White, hasMoved = True\<rparr>
        \<and> sq nb 7 4 = None \<and> sq nb 7 7 = None
        \<and> getSan castleBoard nb ((7, 4), (7, 6)) None = Inr ''O-O'')"
proof -
  have len: "length castleBoard = 8" by (simp add: castleBoard_def)
  have k: "sq castleBoard 7 4 = Some \<lparr>ptype = King, color = White, hasMoved = False\<rparr>"
    by code_simp
  have rk: "sq castleBoard 7 (if True then 7 else 0)
      = Some \<lparr>ptype = Rook, color = White, hasMoved = False\<rparr>"
    by code_simp
  from castling_moves_king_and_rook [OF len _ k _ rk, of None]
  obtain nb inCheck where nb: "applyMove castleBoard ((7, 4), (7, 6)) None = Inr nb"
    and s: "sq nb 7 6 = Some \<lparr>ptype = King, color = White, hasMoved = True\<rparr>"
      "sq nb 7 5 = Some \<lparr>ptype = Rook, color = White, hasMoved = True\<rparr>"
      "sq nb 7 4 = None" "sq nb 7 7 = None"
    and ic: "isInCheck nb Black = Inr inCheck"
    and san: "\<not> inCheck \<longrightarrow> getSan castleBoard nb ((7, 4), (7, 6)) None = Inr ''O-O''"
    by (auto simp: opponentOf_def)
  have "(case applyMove castleBoard ((7, 4), (7, 6)) None of
           Inl e \<Rightarrow> Inl e | Inr b \<Rightarrow> isInCheck b Black) = Inr False"
    by code_simp
  with nb ic have "\<not> inCheck" by simp
  with san have "getSan castleBoard nb ((7, 4), (7, 6)) None = Inr ''O-O''" by simp
  with nb s len k rk show ?thesis by (auto simp: mk_def)
qed

text \<open>
  C8. On a board of eight rows, \<^verbatim>\<open>isInCheck\<close> returns \<^verbatim>\<open>true\<close> when no
  king of the colour stands on the board; when exactly one does, it
  returns what \<^verbatim>\<open>isSquareUnderAttack\<close> returns for that king's square
  with the other colour as attacker.
\<close>

theorem isInCheck_is_attack_on_king:
  "length board = 8 \<Longrightarrow>
   ((\<forall>r \<in> {0..7}. \<forall>c \<in> {0..7}. \<not> isPiece (sq board r c) col King)
      \<longrightarrow> isInCheck board col = Inr True) \<and>
   (\<forall>kr \<in> {0..7}. \<forall>kc \<in> {0..7}.
      isPiece (sq board kr kc) col King
      \<and> (\<forall>r \<in> {0..7}. \<forall>c \<in> {0..7}. isPiece (sq board r c) col King \<longrightarrow> r = kr \<and> c = kc)
      \<longrightarrow> (\<exists>attacked. isSquareUnderAttack board (kr, kc) (opponentOf col) = Inr attacked
              \<and> isInCheck board col = Inr attacked))"
proof (intro conjI impI ballI)
  assume len: "length board = 8"
    and "\<forall>r \<in> {0..7}. \<forall>c \<in> {0..7}. \<not> isPiece (sq board r c) col King"
  then have "findKing board col None [0..7] = Inr None"
    by (intro findKing_no_king [OF len]) simp_all
  then show "isInCheck board col = Inr True" by (simp only: isInCheck_def sum.case option.case)
next
  fix kr kc :: int
  assume len: "length board = 8" and k: "kr \<in> {0..7}" "kc \<in> {0..7}"
    and one: "isPiece (sq board kr kc) col King
      \<and> (\<forall>r \<in> {0..7}. \<forall>c \<in> {0..7}. isPiece (sq board r c) col King \<longrightarrow> r = kr \<and> c = kc)"
  then have "findKing board col None [0..7] = Inr (Some (kr, kc))"
    by (intro findKing_single_king [OF len]) blast+
  then have "isInCheck board col = isSquareUnderAttack board (kr, kc) (opponentOf col)"
    by (simp only: isInCheck_def sum.case option.case)
  with isSquareUnderAttack_total [OF len, of "(kr, kc)" "opponentOf col"]
  show "\<exists>attacked. isSquareUnderAttack board (kr, kc) (opponentOf col) = Inr attacked
              \<and> isInCheck board col = Inr attacked" by auto
qed

theorem isInCheck_is_attack_on_king_witness:
  "length kinglessBoard = 8
   \<and> isInCheck kinglessBoard White = Inr True
   \<and> isPiece (sq kinglessBoard 0 7) Black King
   \<and> isSquareUnderAttack kinglessBoard (0, 7) White = Inr False
   \<and> isInCheck kinglessBoard Black = Inr False"
proof -
  have len: "length kinglessBoard = 8" by (simp add: kinglessBoard_def)
  have none: "\<forall>r \<in> {0..7}. \<forall>c \<in> {0..7}. \<not> isPiece (sq kinglessBoard r c) White King"
    unfolding ball_upto_0_7 by code_simp
  have king: "isPiece (sq kinglessBoard 0 7) Black King" by code_simp
  have one: "\<forall>r \<in> {0..7}. \<forall>c \<in> {0..7}. isPiece (sq kinglessBoard r c) Black King \<longrightarrow> r = 0 \<and> c = 7"
    unfolding ball_upto_0_7 by code_simp
  have att: "isSquareUnderAttack kinglessBoard (0, 7) White = Inr False" by code_simp
  have w: "isInCheck kinglessBoard White = Inr True"
    using isInCheck_is_attack_on_king [OF len, of White] none by blast
  have "0 \<in> {0..7::int}" "7 \<in> {0..7::int}" by simp_all
  with isInCheck_is_attack_on_king [OF len, of Black] king one
  have "\<exists>attacked. isSquareUnderAttack kinglessBoard (0, 7) (opponentOf Black) = Inr attacked
              \<and> isInCheck kinglessBoard Black = Inr attacked" by blast
  with att have b: "isInCheck kinglessBoard Black = Inr False" by (auto simp: opponentOf_def)
  from len none w king one att b show ?thesis by blast
qed

subsection \<open>C9: \<^verbatim>\<open>applyMove\<close> changes no object it is given\<close>

text \<open>
  C9. In a store \<open>h\<close>, let \<open>b1\<close> and \<open>b2\<close> be two boards with nothing dangling that
  are structurally equal (independent copies, or boards that share rows or pieces),
  and let \<^verbatim>\<open>applyMove\<close> be called on \<open>b1\<close> and then on \<open>b2\<close> with the same move and the
  same promotion type. Then each call leaves every object that existed before it as it
  was (it writes to objects it has created only), so the board given holds after the call
  what it held before, square by square and field by field; and the two calls end alike:
  both raise the same exception, or both return boards that are structurally equal. This
  holds for every move, also one from an empty square or with coordinates off the board.
\<close>

theorem applyMove_is_pure:
  assumes wf1: "wfBoard h b1" and wf2: "wfBoard h b2"
    and same: "content h b1 = content h b2"
    and run1: "applyMoveH h b1 mv promoteTo = (h1, res1)"
    and run2: "applyMoveH h1 b2 mv promoteTo = (h2, res2)"
  shows "unchanged h h1 \<and> content h1 b1 = content h b1
       \<and> unchanged h1 h2 \<and> content h2 b2 = content h b2
       \<and> map_sum id (content h2) res1 = map_sum id (content h2) res2"
proof -
  from applyMoveH_ext [OF run1] have u1: "unchanged h h1" .
  from unchanged_content [OF u1 wf1] have c1: "content h1 b1 = content h b1" .
  from unchanged_wfBoard [OF u1 wf2] have wf2': "wfBoard h1 b2" .
  from applyMoveH_ext [OF run2] have u2: "unchanged h1 h2" .
  from unchanged_content [OF u2 wf2'] unchanged_content [OF u1 wf2]
  have c2: "content h2 b2 = content h b2" "content h1 b2 = content h b2" by simp_all
  from applyMoveH_content [OF wf1 run1]
  have r1: "map_sum id (content h1) res1 = applyMoveC (content h b1) mv promoteTo" .
  from applyMoveH_content [OF wf2' run2]
  have r2: "map_sum id (content h2) res2 = applyMoveC (content h b1) mv promoteTo"
    by (simp add: c2 same)
  have "map_sum id (content h2) res1 = map_sum id (content h1) res1"
  proof (cases res1)
    case (Inl e)
    then show ?thesis by simp
  next
    case (Inr n)
    from applyMoveH_wfBoard [OF wf1 run1 [unfolded Inr]] have "wfBoard h1 n" .
    from unchanged_content [OF u2 this] show ?thesis by (simp add: Inr)
  qed
  with r1 r2 have "map_sum id (content h2) res1 = map_sum id (content h2) res2" by simp
  with u1 c1 u2 c2(1) show ?thesis by simp
qed

text \<open>The theorem at the white king's castling on the two boards of \<^term>\<open>twoBoards\<close>.\<close>

theorem applyMove_is_pure_witness:
  "wfBoard twoBoards 0 \<and> wfBoard twoBoards 1 \<and> content twoBoards 0 = content twoBoards 1
   \<and> snd firstCall = Inr 2 \<and> snd secondCall = Inr 3
   \<and> unchanged twoBoards (fst firstCall) \<and> unchanged (fst firstCall) (fst secondCall)
   \<and> content (fst firstCall) 0 = content twoBoards 0
   \<and> content (fst secondCall) 1 = content twoBoards 1
   \<and> content (fst secondCall) 2 = content (fst secondCall) 3"
proof -
  have wf: "wfBoard twoBoards 0" "wfBoard twoBoards 1" by code_simp+
  have same: "content twoBoards 0 = content twoBoards 1" by code_simp
  have r1: "snd firstCall = Inr 2" by code_simp
  have r2: "snd secondCall = Inr 3" by code_simp
  have run1: "applyMoveH twoBoards 0 ((7, 4), (7, 6)) None = (fst firstCall, snd firstCall)"
    by (simp add: firstCall_def)
  have run2: "applyMoveH (fst firstCall) 1 ((7, 4), (7, 6)) None = (fst secondCall, snd secondCall)"
    by (simp add: secondCall_def)
  from applyMove_is_pure [OF wf same run1 run2] wf same r1 r2 show ?thesis by simp
qed



end
